theory Spec2Isabelle
  imports Main "HOL-Library.Word" "HOL-Library.Signed_Division"
begin

unbundle bit_operations_syntax

section \<open>The SHA-1 digest engine (sha1.h, sha1.c)\<close>

type_synonym u8 = "8 word"
type_synonym u32 = "32 word"
type_synonym u64 = "64 word"

text \<open>
  \<^verbatim>\<open>#define ROTATE_LEFT(_x,_c) ((((uint32_t) _x) << (_c)) | (((uint32_t) _x) >> (0x20 - (_c))))\<close>
\<close>

definition ROTATE_LEFT :: "u32 \<Rightarrow> nat \<Rightarrow> u32" where
  "ROTATE_LEFT x c = (push_bit c x) OR (drop_bit (32 - c) x)"

text \<open>
  \<^verbatim>\<open>sha1_t\<close>: the accumulator \<^verbatim>\<open>h[5]\<close>, the 64-byte holding area, the 64-bit byte
  counter, the 32-bit block counter and the flags. The two fixed-size arrays are lists;
  every operation below keeps their lengths (5 and 64).
\<close>

record sha1_t =
  h :: "u32 list"
  block :: "u8 list"
  bytes :: u64
  blocks :: u32
  flags :: u32

definition SHA1_BINARY_BYTES :: nat where "SHA1_BINARY_BYTES = 20"
definition SHA1_BLOCK_BYTES :: nat where "SHA1_BLOCK_BYTES = 64"
definition SHA1_FLAG_UPPER_CASE :: u32 where "SHA1_FLAG_UPPER_CASE = 1"
definition SHA1_FLAGS_DEFAULT :: u32 where "SHA1_FLAGS_DEFAULT = 0"

definition SHA1_INIT_FLAGS :: "u32 \<Rightarrow> sha1_t" where
  "SHA1_INIT_FLAGS fl =
     \<lparr> h = [0x67452301, 0xEFCDAB89, 0x98BADCFE, 0x10325476, 0xC3D2E1F0],
       block = replicate 64 0, bytes = 0, blocks = 0, flags = fl \<rparr>"

definition sha1_initialized :: sha1_t where
  "sha1_initialized = SHA1_INIT_FLAGS SHA1_FLAGS_DEFAULT"

text \<open>
  A \<^verbatim>\<open>sha1_t*\<close> is an option: \<open>None\<close> is the NULL pointer, \<open>Some s\<close> points at an
  object whose contents are \<open>s\<close>. A function that mutates the object and returns the
  pointer returns the option holding the new contents.
\<close>

fun sha1_init_flags :: "sha1_t option \<Rightarrow> u32 \<Rightarrow> sha1_t option" where
  "sha1_init_flags None fl = None"
| "sha1_init_flags (Some s) fl = Some (sha1_initialized\<lparr>flags := fl\<rparr>)"

definition sha1_init :: "sha1_t option \<Rightarrow> sha1_t option" where
  "sha1_init sha1 = sha1_init_flags sha1 SHA1_FLAGS_DEFAULT"

subsection \<open>The compression round\<close>

text \<open>The first loop of \<^verbatim>\<open>sha1_hash_block\<close>: sixteen big-endian words of the block.\<close>

definition load_be32 :: "u8 list \<Rightarrow> nat \<Rightarrow> u32" where
  "load_be32 block_data i =
     push_bit 24 (ucast (block_data ! (4 * i + 0))) +
     push_bit 16 (ucast (block_data ! (4 * i + 1))) +
     push_bit 8 (ucast (block_data ! (4 * i + 2))) +
     push_bit 0 (ucast (block_data ! (4 * i + 3)))"

definition w_init :: "u8 list \<Rightarrow> u32 list" where
  "w_init block_data = map (load_be32 block_data) [0..<16]"

text \<open>The second loop: \<^verbatim>\<open>for (i = 0x10; i < 0x50; ++i)\<close>, extending \<^verbatim>\<open>w\<close>.\<close>

function w_expand :: "nat \<Rightarrow> u32 list \<Rightarrow> u32 list" where
  "w_expand i w =
     (if i < 80 then
        let k = w ! (i - 3) XOR w ! (i - 8) XOR w ! (i - 14) XOR w ! (i - 16)
        in w_expand (i + 1) (w @ [ROTATE_LEFT k 1])
      else w)"
  by pat_completeness auto
termination
  by (relation "measure (\<lambda>(i, w). 80 - i)") auto

declare w_expand.simps [simp del]

text \<open>The third loop: eighty rounds over the working variables.\<close>

type_synonym abcde = "u32 \<times> u32 \<times> u32 \<times> u32 \<times> u32"

definition sha1_round :: "u32 list \<Rightarrow> nat \<Rightarrow> abcde \<Rightarrow> abcde" where
  "sha1_round w i v =
     (case v of (a, b, c, d, e) \<Rightarrow>
        let (f, k) =
              (if i < 20 then ((b AND c) OR ((NOT b) AND d), 0x5A827999)
               else if i < 40 then (b XOR c XOR d, 0x6ED9EBA1)
               else if i < 60 then ((b AND c) OR (b AND d) OR (c AND d), 0x8F1BBCDC)
               else (b XOR c XOR d, 0xCA62C1D6));
            temp = ROTATE_LEFT a 5;
            temp = temp + (f + e + k + w ! i)
        in (temp, a, ROTATE_LEFT b 30, c, d))"

function sha1_rounds :: "u32 list \<Rightarrow> nat \<Rightarrow> abcde \<Rightarrow> abcde" where
  "sha1_rounds w i v = (if i < 80 then sha1_rounds w (i + 1) (sha1_round w i v) else v)"
  by pat_completeness auto
termination
  by (relation "measure (\<lambda>(w, i, v). 80 - i)") auto

declare sha1_rounds.simps [simp del]

definition sha1_hash_block :: "u32 list \<Rightarrow> u8 list \<Rightarrow> u32 list" where
  "sha1_hash_block hs block_data =
     (let w = w_expand 16 (w_init block_data) in
      case sha1_rounds w 0 (hs ! 0, hs ! 1, hs ! 2, hs ! 3, hs ! 4) of
        (a, b, c, d, e) \<Rightarrow> [hs ! 0 + a, hs ! 1 + b, hs ! 2 + c, hs ! 3 + d, hs ! 4 + e])"

subsection \<open>Streaming update\<close>

text \<open>
  \<^verbatim>\<open>memcpy(&dst[off], src, n)\<close> and \<^verbatim>\<open>memset(&dst[off], v, n)\<close> on a destination
  array that has room for the \<open>n\<close> bytes.
\<close>

definition memcpy :: "u8 list \<Rightarrow> nat \<Rightarrow> u8 list \<Rightarrow> nat \<Rightarrow> u8 list" where
  "memcpy dst off src n = take off dst @ take n src @ drop (off + n) dst"

definition memset :: "u8 list \<Rightarrow> nat \<Rightarrow> u8 \<Rightarrow> nat \<Rightarrow> u8 list" where
  "memset dst off v n = take off dst @ replicate n v @ drop (off + n) dst"

text \<open>
  The \<^verbatim>\<open>while (size >= SHA1_BLOCK_BYTES)\<close> loop of \<^verbatim>\<open>sha1_update\<close>; \<open>b\<close> is the
  data from the read pointer on, so \<^verbatim>\<open>b += 64\<close> drops 64 bytes. It returns the state,
  the read pointer and the remaining size.
\<close>

function sha1_update_loop :: "sha1_t \<Rightarrow> u8 list \<Rightarrow> nat \<Rightarrow> sha1_t \<times> u8 list \<times> nat" where
  "sha1_update_loop s b sz =
     (if sz \<ge> 64 then
        let blk = memcpy (block s) 0 b 64
        in sha1_update_loop
             (s\<lparr>block := blk, bytes := bytes s + 64,
                h := sha1_hash_block (h s) blk, blocks := blocks s + 1\<rparr>)
             (drop 64 b) (sz - 64)
      else (s, b, sz))"
  by pat_completeness auto
termination
  by (relation "measure (\<lambda>(s, b, sz). sz)") auto

declare sha1_update_loop.simps [simp del]

text \<open>
  \<^verbatim>\<open>sha1_update(sha1, data, size)\<close>. The data pointer is an option (\<open>None\<close> is NULL);
  \<open>size\<close> is the \<^verbatim>\<open>size_t\<close> argument, and the C contract is that \<open>size\<close> bytes are
  readable at \<open>data\<close>, that is \<open>size \<le> length data\<close>.
\<close>

definition sha1_update :: "sha1_t option \<Rightarrow> u8 list option \<Rightarrow> nat \<Rightarrow> sha1_t option" where
  "sha1_update sha1 data sz =
     (case (sha1, data) of
        (None, _) \<Rightarrow> sha1
      | (_, None) \<Rightarrow> sha1
      | (Some s, Some b) \<Rightarrow>
          if sz = 0 then sha1
          else
            let bytes_used_in_block = unat (bytes s) mod 64;
                bytes_free_in_block = 64 - bytes_used_in_block
            in
              if sz < bytes_free_in_block then
                Some (s\<lparr>block := memcpy (block s) bytes_used_in_block b sz,
                        bytes := bytes s + of_nat sz\<rparr>)
              else
                let blk = memcpy (block s) bytes_used_in_block b bytes_free_in_block;
                    s1 = s\<lparr>block := blk, bytes := bytes s + of_nat bytes_free_in_block,
                           h := sha1_hash_block (h s) blk, blocks := blocks s + 1\<rparr>;
                    (s2, b2, sz2) =
                       sha1_update_loop s1 (drop bytes_free_in_block b)
                         (sz - bytes_free_in_block)
                in
                  if sz2 > 0 then
                    Some (s2\<lparr>block := memcpy (block s2) 0 b2 sz2,
                             bytes := bytes s2 + of_nat sz2\<rparr>)
                  else Some s2)"

subsection \<open>Padding and the final round\<close>

definition store_be64 :: "u8 list \<Rightarrow> u64 \<Rightarrow> u8 list" where
  "store_be64 blk bits =
     blk[56 := ucast (drop_bit 56 bits AND 0xFF),
         57 := ucast (drop_bit 48 bits AND 0xFF),
         58 := ucast (drop_bit 40 bits AND 0xFF),
         59 := ucast (drop_bit 32 bits AND 0xFF),
         60 := ucast (drop_bit 24 bits AND 0xFF),
         61 := ucast (drop_bit 16 bits AND 0xFF),
         62 := ucast (drop_bit 8 bits AND 0xFF),
         63 := ucast (drop_bit 0 bits AND 0xFF)]"

fun sha1_end :: "sha1_t option \<Rightarrow> sha1_t option" where
  "sha1_end None = None"
| "sha1_end (Some s) =
     (let bytes_used_in_block = unat (bytes s) mod 64;
          s = s\<lparr>block := (block s)[bytes_used_in_block := 0x80]\<rparr>;
          bytes_used_in_block = bytes_used_in_block + 1;
          (s, bytes_used_in_block) =
             (if bytes_used_in_block > 64 - 8 then
                let blk = memset (block s) bytes_used_in_block 0 (64 - bytes_used_in_block)
                in (s\<lparr>block := blk, h := sha1_hash_block (h s) blk,
                       blocks := blocks s + 1\<rparr>, 0)
              else (s, bytes_used_in_block));
          blk = memset (block s) bytes_used_in_block 0 ((64 - 8) - bytes_used_in_block);
          bits = 8 * bytes s;
          blk = store_be64 blk bits
      in Some (s\<lparr>block := blk, h := sha1_hash_block (h s) blk, blocks := blocks s + 1\<rparr>))"

declare sha1_end.simps(2) [simp del]

subsection \<open>Rendering\<close>

text \<open>
  \<^verbatim>\<open>sha1_text\<close> reads the accumulator through a \<^verbatim>\<open>uint8_t*\<close>. On the little-endian
  machines the code is written for (its own comments say so), byte \<open>k\<close> of the array
  \<^verbatim>\<open>h\<close> is byte \<open>k mod 4\<close>, counted from the least significant, of word \<open>k div 4\<close>.
\<close>

definition hash_byte :: "u32 list \<Rightarrow> nat \<Rightarrow> u8" where
  "hash_byte hs k = ucast (drop_bit (8 * (k mod 4)) (hs ! (k div 4)))"

definition tohex :: "u32 \<Rightarrow> string" where
  "tohex fl = (if fl AND SHA1_FLAG_UPPER_CASE \<noteq> 0 then ''0123456789ABCDEF''
               else ''0123456789abcdef'')"

definition sha1_text_chars :: "sha1_t \<Rightarrow> nat \<Rightarrow> string" where
  "sha1_text_chars s i =
     [tohex (flags s) ! unat (drop_bit 4 (hash_byte (h s) (i XOR 3)) AND 0x0F),
      tohex (flags s) ! unat (drop_bit 0 (hash_byte (h s) (i XOR 3)) AND 0x0F)]"

text \<open>
  \<^verbatim>\<open>sha1_text\<close> reads \<^verbatim>\<open>sha1->flags\<close> before its NULL test, so a NULL state is a
  fault (\<open>None\<close>); otherwise the result is the text written, up to the terminating NUL.
\<close>

fun sha1_text :: "sha1_t option \<Rightarrow> string option" where
  "sha1_text None = None"
| "sha1_text (Some s) = Some (concat (map (sha1_text_chars s) [0..<20]))"

text \<open>
  \<^verbatim>\<open>sha1_buffer_flags\<close> initialises a local \<^verbatim>\<open>sha1_t\<close>; what the object held before
  does not reach the result, so any contents stand for it.
\<close>

definition sha1_buffer_flags :: "u8 list option \<Rightarrow> nat \<Rightarrow> u32 \<Rightarrow> string option" where
  "sha1_buffer_flags data sz fl =
     sha1_text (sha1_end (sha1_update (sha1_init_flags (Some sha1_initialized) fl) data sz))"

definition sha1_buffer :: "u8 list option \<Rightarrow> nat \<Rightarrow> string option" where
  "sha1_buffer data sz = sha1_buffer_flags data sz SHA1_FLAGS_DEFAULT"

section \<open>Notions used to state the properties of the digest engine\<close>

text \<open>
  Calling \<^verbatim>\<open>sha1_update\<close> once per fragment, in order, each call with the fragment and its
  length.
\<close>

definition sha1_update_fragments :: "sha1_t option \<Rightarrow> u8 list list \<Rightarrow> sha1_t option" where
  "sha1_update_fragments sha1 fs = foldl (\<lambda>st f. sha1_update st (Some f) (length f)) sha1 fs"

text \<open>
  The input seen so far splits into the full 64-byte blocks, which the compression round
  has consumed, and the tail that is still staged in the holding area.
\<close>

definition full_blocks :: "u8 list \<Rightarrow> u8 list list" where
  "full_blocks xs = map (\<lambda>i. take 64 (drop (64 * i) xs)) [0..<length xs div 64]"

definition staged_tail :: "u8 list \<Rightarrow> u8 list" where
  "staged_tail xs = drop (64 * (length xs div 64)) xs"

text \<open>
  One byte at a time: store the byte at the fill position, count it, and run the
  compression round when the holding area is full. \<^verbatim>\<open>sha1_update\<close> is shown below to
  do this for every byte of its input; the function is only a device for the proofs.
\<close>

definition feed :: "u8 \<Rightarrow> sha1_t \<Rightarrow> sha1_t" where
  "feed x s =
     (let used = unat (bytes s) mod 64; blk = (block s)[used := x] in
      if used = 63 then
        s\<lparr>block := blk, bytes := bytes s + 1,
          h := sha1_hash_block (h s) blk, blocks := blocks s + 1\<rparr>
      else s\<lparr>block := blk, bytes := bytes s + 1\<rparr>)"

text \<open>
  The padding as the specification words it: the staged bytes, the byte \<open>0x80\<close>, zero
  bytes until exactly eight bytes remain in the current block (or in a fresh block when
  fewer than eight remain after the \<open>0x80\<close>), then the bit length \<open>8 * N\<close> as a 64-bit
  big-endian integer. \<open>be_value\<close> reads a byte string as a big-endian number.
\<close>

definition be64 :: "u64 \<Rightarrow> u8 list" where
  "be64 bits =
     [ucast (drop_bit 56 bits AND 0xFF), ucast (drop_bit 48 bits AND 0xFF),
      ucast (drop_bit 40 bits AND 0xFF), ucast (drop_bit 32 bits AND 0xFF),
      ucast (drop_bit 24 bits AND 0xFF), ucast (drop_bit 16 bits AND 0xFF),
      ucast (drop_bit 8 bits AND 0xFF), ucast (drop_bit 0 bits AND 0xFF)]"

definition sha1_padded :: "u8 list \<Rightarrow> nat \<Rightarrow> u8 list" where
  "sha1_padded staged N =
     staged @ [0x80] @
     replicate (if length staged + 1 \<le> 56 then 56 - (length staged + 1)
                else (64 - (length staged + 1)) + 56) 0 @
     be64 (of_nat (8 * N))"

fun be_value :: "u8 list \<Rightarrow> nat" where
  "be_value bs = foldl (\<lambda>acc b. 256 * acc + unat b) 0 bs"

section \<open>The sorted-record lookup (find-pwned.c, find-pwned-password-hash.c)\<close>

text \<open>
  Two programs share the function names \<^verbatim>\<open>find_hash\<close>, \<^verbatim>\<open>handle_input\<close>,
  \<^verbatim>\<open>PrintUsageError\<close> and \<^verbatim>\<open>main\<close>: \<^verbatim>\<open>find-pwned.c\<close> searches the binary corpus
  of 24-byte records (suffix \<open>_bin\<close> below) and \<^verbatim>\<open>find-pwned-password-hash.c\<close> the text
  corpus of 63-byte lines (suffix \<open>_text\<close>). Characters and bytes are \<open>u8\<close>; a C string
  is the list of its characters before the terminating NUL.

  What \<^verbatim>\<open>find_hash\<close> hands back is its return value together with the contents of
  \<^verbatim>\<open>*count\<close>. A read outside the mapped file is undefined in C; the model makes it the
  separate result \<open>OutOfBounds\<close>. The loop is \<^verbatim>\<open>while (1)\<close>, so it is a partial
  function: \<open>None\<close> means that the loop does not end.

  The indices \<^verbatim>\<open>lo\<close>, \<^verbatim>\<open>hi\<close>, \<^verbatim>\<open>mid\<close> are \<^verbatim>\<open>off_t\<close>; they are modelled as
  \<open>int\<close> with C's truncating division \<open>sdiv\<close>. The sums \<^verbatim>\<open>lo + hi\<close> stay below twice
  the number of records, which is far below \<open>2 ^ 63\<close> for any file size an \<^verbatim>\<open>off_t\<close>
  can hold, so no wrap-around is written out.
\<close>

datatype lookup = Returned int u64 | OutOfBounds

subsection \<open>C library functions used by the lookup\<close>

text \<open>
  \<^verbatim>\<open>memcmp\<close> compares bytes as unsigned values; only the sign of its result is used.
  Both arguments are arrays of at least \<open>n\<close> bytes in every call the programs make.
\<close>

fun memcmp :: "u8 list \<Rightarrow> u8 list \<Rightarrow> nat \<Rightarrow> int" where
  "memcmp (x # xs) (y # ys) (Suc n) =
     (if x \<noteq> y then int (unat x) - int (unat y) else memcmp xs ys n)"
| "memcmp _ _ _ = 0"

text \<open>\<^verbatim>\<open>tolower\<close> and \<^verbatim>\<open>toupper\<close> in the C locale.\<close>

definition tolower :: "u8 \<Rightarrow> u8" where
  "tolower c = (if 0x41 \<le> c \<and> c \<le> 0x5A then c + 0x20 else c)"

definition toupper :: "u8 \<Rightarrow> u8" where
  "toupper c = (if 0x61 \<le> c \<and> c \<le> 0x7A then c - 0x20 else c)"

text \<open>The character a \<^verbatim>\<open>char*\<close> points at; past the characters of a string it is NUL.\<close>

fun char_at :: "u8 list \<Rightarrow> u8" where
  "char_at [] = 0"
| "char_at (c # _) = c"

text \<open>
  \<^verbatim>\<open>strncasecmp\<close>: at most \<open>n\<close> characters, compared as unsigned bytes after
  \<^verbatim>\<open>tolower\<close>, stopping at the first difference or at a NUL.
\<close>

fun strncasecmp :: "u8 list \<Rightarrow> u8 list \<Rightarrow> nat \<Rightarrow> int" where
  "strncasecmp s1 s2 0 = 0"
| "strncasecmp s1 s2 (Suc n) =
     (let c1 = tolower (char_at s1); c2 = tolower (char_at s2) in
      if c1 \<noteq> c2 then int (unat c1) - int (unat c2)
      else if c1 = 0 then 0
      else strncasecmp (tl s1) (tl s2) n)"

text \<open>
  \<^verbatim>\<open>atoi\<close>: white space, an optional sign, then decimal digits. The value is an
  unbounded \<open>int\<close> here (\<^verbatim>\<open>atoi\<close> is undefined beyond the range of \<^verbatim>\<open>int\<close>).
\<close>

definition isspace :: "u8 \<Rightarrow> bool" where
  "isspace c = (c = 0x20 \<or> (0x09 \<le> c \<and> c \<le> 0x0D))"

definition isdigit :: "u8 \<Rightarrow> bool" where
  "isdigit c = (0x30 \<le> c \<and> c \<le> 0x39)"

fun atoi_digits :: "int \<Rightarrow> u8 list \<Rightarrow> int" where
  "atoi_digits acc [] = acc"
| "atoi_digits acc (c # cs) =
     (if isdigit c then atoi_digits (10 * acc + (int (unat c) - 0x30)) cs else acc)"

definition atoi :: "u8 list \<Rightarrow> int" where
  "atoi s =
     (case dropWhile isspace s of
        [] \<Rightarrow> 0
      | c # cs \<Rightarrow>
          if c = 0x2D then - atoi_digits 0 cs
          else if c = 0x2B then atoi_digits 0 cs
          else atoi_digits 0 (c # cs))"

subsection \<open>The binary corpus: \<^verbatim>\<open>find-pwned.c\<close>\<close>

text \<open>
  \<^verbatim>\<open>struct pwned_info_s\<close> (packed, 24 bytes): the 20 hash bytes and the 32-bit count.
  The mapped file is the array of these records.
\<close>

record pwned_info_t =
  hash :: "u8 list"
  count :: u32

definition kPwnedInfoSize :: nat where "kPwnedInfoSize = 24"
definition kTextHashChars :: nat where "kTextHashChars = 2 * SHA1_BINARY_BYTES"

partial_function (option) find_hash_loop_bin ::
  "pwned_info_t list \<Rightarrow> u8 list \<Rightarrow> int \<Rightarrow> int \<Rightarrow> int \<Rightarrow> lookup option" where
  "find_hash_loop_bin data target lo hi mid =
     (if mid < 0 \<or> int (length data) \<le> mid then Some OutOfBounds
      else
        let pwned = data ! nat mid;
            cmp = memcmp target (hash pwned) SHA1_BINARY_BYTES
        in
          if 0 = cmp then Some (Returned 1 (ucast (count pwned)))
          else if lo = mid then Some (Returned 0 0)
          else if cmp < 0 then find_hash_loop_bin data target lo mid ((lo + mid) sdiv 2)
          else find_hash_loop_bin data target mid hi ((mid + hi) sdiv 2))"

definition find_hash_bin :: "pwned_info_t list \<Rightarrow> nat \<Rightarrow> u8 list \<Rightarrow> lookup option" where
  "find_hash_bin data file_size target =
     (let lo = 0;
          hi = int (file_size div kPwnedInfoSize) - 1;
          mid = (lo + hi) sdiv 2
      in find_hash_loop_bin data target lo hi mid)"

definition hexval :: "u8 \<Rightarrow> int" where
  "hexval c =
     (if 0x30 \<le> c \<and> c \<le> 0x39 then int (unat c) - 0x30
      else if 0x41 \<le> c \<and> c \<le> 0x46 then 10 + int (unat c) - 0x41
      else if 0x61 \<le> c \<and> c \<le> 0x66 then 10 + int (unat c) - 0x61
      else -1)"

text \<open>\<^verbatim>\<open>hex2byte\<close>: \<open>None\<close> is the return value 0, with \<^verbatim>\<open>*byte\<close> left alone.\<close>

definition hex2byte :: "u8 list \<Rightarrow> u8 option" where
  "hex2byte hs =
     (let hi = hexval (char_at hs); lo = hexval (char_at (tl hs)) in
      if hi < 0 \<or> lo < 0 then None else Some (of_int (hi * 16 + lo)))"

text \<open>
  What the programs write to \<^verbatim>\<open>stderr\<close>, as values: the two diagnostics of
  \<^verbatim>\<open>handle_input\<close> (with the arguments of their format strings), the one of
  \<^verbatim>\<open>find_hash\<close> in the text program, those of \<^verbatim>\<open>main\<close>, and the hint that
  \<^verbatim>\<open>PrintUsageError\<close> adds.
\<close>

datatype message =
    InvalidHashLength "u8 list" nat nat
  | InvalidHexByte nat "u8 list"
  | HashShouldBe "u8 list" nat nat
  | CouldNotOpen
  | SeekFailed
  | InvalidFileSize int nat
  | MmapFailed
  | UseHelp

text \<open>
  \<^verbatim>\<open>PrintUsageError(exit_code, ...)\<close> of \<^verbatim>\<open>find-pwned.c\<close>: two lines on
  \<^verbatim>\<open>stderr\<close>, then \<^verbatim>\<open>exit(exit_code)\<close> if the code is not zero. The result is the
  lines and the exit status, if the program exits.
\<close>

definition PrintUsageError_bin :: "int \<Rightarrow> message \<Rightarrow> message list \<times> int option" where
  "PrintUsageError_bin exit_code m = ([m, UseHelp], if exit_code \<noteq> 0 then Some exit_code else None)"

text \<open>
  The outcome of one call of \<^verbatim>\<open>handle_input\<close>: what it wrote to \<^verbatim>\<open>stderr\<close>, the
  exit status if it ended the program, the result of its call of \<^verbatim>\<open>find_hash\<close>
  (\<open>None\<close> when it made none), and its return value (\<open>None\<close> when it does not return
  one). The lines it prints on \<^verbatim>\<open>stdout\<close> and the counter \<^verbatim>\<open>g_count\<close> that only
  feeds them are left out.
\<close>

record handled =
  h_stderr :: "message list"
  h_exit :: "int option"
  h_lookup :: "lookup option"
  h_return :: "int option"

text \<open>
  The decoding loop of \<^verbatim>\<open>handle_input\<close>: \<open>Inl i\<close> when \<^verbatim>\<open>hex2byte\<close> fails at byte
  \<open>i\<close>, else the array \<^verbatim>\<open>hash\<close> with bytes \<open>i\<close> to 19 decoded.
\<close>

function decode_hash :: "u8 list \<Rightarrow> nat \<Rightarrow> u8 list \<Rightarrow> nat + u8 list" where
  "decode_hash input i hs =
     (if i < SHA1_BINARY_BYTES then
        (case hex2byte (drop (2 * i) input) of
           None \<Rightarrow> Inl i
         | Some b \<Rightarrow> decode_hash input (i + 1) (hs[i := b]))
      else Inr hs)"
  by pat_completeness auto
termination
  by (relation "measure (\<lambda>(input, i, hs). SHA1_BINARY_BYTES - i)") auto

declare decode_hash.simps [simp del]

text \<open>
  Modelled from the spec: \<^verbatim>\<open>sha1_buffer_bin\<close> is declared in \<^verbatim>\<open>sha1.h\<close> and called by
  \<^verbatim>\<open>handle_input\<close>, but \<^verbatim>\<open>sha1.c\<close> does not define it. The specification describes it
  as the one-shot composition of init, update and finish that returns the 20-byte digest;
  the bytes are those \<^verbatim>\<open>sha1_text\<close> renders, in that order.
\<close>

definition sha1_buffer_bin :: "u8 list option \<Rightarrow> nat \<Rightarrow> u8 list" where
  "sha1_buffer_bin data sz =
     (case sha1_end (sha1_update (sha1_init (Some sha1_initialized)) data sz) of
        None \<Rightarrow> replicate 20 0
      | Some s \<Rightarrow> map (\<lambda>i. hash_byte (h s) (i XOR 3)) [0..<20])"

definition handle_input_bin ::
  "bool \<Rightarrow> u8 list \<Rightarrow> pwned_info_t list \<Rightarrow> nat \<Rightarrow> handled option" where
  "handle_input_bin g_password input file_data file_size =
     (let search = (\<lambda>hs.
            map_option (\<lambda>r. \<lparr>h_stderr = [], h_exit = None, h_lookup = Some r,
                              h_return = (case r of Returned found _ \<Rightarrow> Some found
                                          | OutOfBounds \<Rightarrow> None)\<rparr>)
              (find_hash_bin file_data file_size hs))
      in
        if g_password then search (sha1_buffer_bin (Some input) (length input))
        else if length input \<noteq> kTextHashChars then
          (case PrintUsageError_bin 0 (InvalidHashLength input kTextHashChars (length input)) of
             (msgs, ex) \<Rightarrow>
               Some \<lparr>h_stderr = msgs, h_exit = ex, h_lookup = None,
                     h_return = (if ex = None then Some 0 else None)\<rparr>)
        else
          (case decode_hash input 0 (replicate SHA1_BINARY_BYTES 0) of
             Inl i \<Rightarrow>
               (case PrintUsageError_bin 0 (InvalidHexByte (2 * i) input) of
                  (msgs, ex) \<Rightarrow>
                    Some \<lparr>h_stderr = msgs, h_exit = ex, h_lookup = None,
                          h_return = (if ex = None then Some 0 else None)\<rparr>)
           | Inr hs \<Rightarrow> search hs))"

text \<open>
  The loop of \<^verbatim>\<open>main\<close> over the queries (the arguments, or the lines of
  \<^verbatim>\<open>stdin\<close>): the outcomes in order, stopping after one that exits the program.
  \<open>None\<close> when a call does not return.
\<close>

fun queries_bin ::
  "bool \<Rightarrow> pwned_info_t list \<Rightarrow> nat \<Rightarrow> u8 list list \<Rightarrow> handled list option" where
  "queries_bin g_password file_data file_size [] = Some []"
| "queries_bin g_password file_data file_size (q # qs) =
     (case handle_input_bin g_password q file_data file_size of
        None \<Rightarrow> None
      | Some r \<Rightarrow>
          if h_exit r \<noteq> None then Some [r]
          else map_option ((#) r) (queries_bin g_password file_data file_size qs))"

text \<open>
  A run of \<^verbatim>\<open>main\<close>: the exit status, the lines on \<^verbatim>\<open>stderr\<close> written by
  \<^verbatim>\<open>main\<close> itself, and the outcomes of the calls of \<^verbatim>\<open>handle_input\<close>. The
  environment is given by whether \<^verbatim>\<open>open\<close> succeeds, by what \<^verbatim>\<open>lseek\<close> returns as
  the file size, and by whether \<^verbatim>\<open>mmap\<close> returns NULL (the only result of
  \<^verbatim>\<open>mmap\<close> that \<^verbatim>\<open>main\<close> tests for). When a lookup was \<open>OutOfBounds\<close> the C
  program has no defined behaviour, and the exit status given here means nothing.
\<close>

record run =
  exit_status :: int
  main_stderr :: "message list"
  queries :: "handled list"

text \<open>The end of \<^verbatim>\<open>main\<close> once the loop is over (or a call has exited the program).\<close>

definition finish_bin :: "handled list \<Rightarrow> run" where
  "finish_bin rs =
     (case List.find (\<lambda>r. h_exit r \<noteq> None) rs of
        Some r \<Rightarrow>
          \<lparr>exit_status = (case h_exit r of Some c \<Rightarrow> c | None \<Rightarrow> 0),
            main_stderr = [], queries = rs\<rparr>
      | None \<Rightarrow>
          let not_found = list_ex (\<lambda>r. h_return r = Some 0) rs
          in \<lparr>exit_status = (if not_found then 1 else 0), main_stderr = [], queries = rs\<rparr>)"

definition main_bin ::
  "bool \<Rightarrow> bool \<Rightarrow> int \<Rightarrow> bool \<Rightarrow> pwned_info_t list \<Rightarrow> u8 list list \<Rightarrow> run option" where
  "main_bin g_password open_ok file_size mmap_null file_data qs =
     (if \<not> open_ok then
        Some \<lparr>exit_status = 2, main_stderr = fst (PrintUsageError_bin 2 CouldNotOpen), queries = []\<rparr>
      else if file_size < 0 then
        Some \<lparr>exit_status = 3, main_stderr = [SeekFailed], queries = []\<rparr>
      else if 0 = file_size \<or> 0 \<noteq> file_size mod int kPwnedInfoSize then
        (case PrintUsageError_bin 3 (InvalidFileSize file_size kPwnedInfoSize) of
           (msgs, ex) \<Rightarrow>
             Some \<lparr>exit_status = (case ex of Some c \<Rightarrow> c | None \<Rightarrow> 4),
                   main_stderr = msgs, queries = []\<rparr>)
      else if mmap_null then
        Some \<lparr>exit_status = 5, main_stderr = [MmapFailed], queries = []\<rparr>
      else map_option finish_bin (queries_bin g_password file_data (nat file_size) qs))"

subsection \<open>The text corpus: \<^verbatim>\<open>find-pwned-password-hash.c\<close>\<close>

definition kTextHashLineBytes :: nat where "kTextHashLineBytes = 63"

text \<open>
  The mapped file is a byte array; \<^verbatim>\<open>&data[mid * 63]\<close> is the file from that offset
  on. The loop reads line \<open>mid\<close>, which has to lie inside the file. A match reads the
  count with \<^verbatim>\<open>atoi\<close> after the 40 hash characters and the colon, and converts the
  \<^verbatim>\<open>int\<close> to \<^verbatim>\<open>uint64_t\<close>.
\<close>

partial_function (option) find_hash_loop_text ::
  "u8 list \<Rightarrow> u8 list \<Rightarrow> int \<Rightarrow> int \<Rightarrow> int \<Rightarrow> lookup option" where
  "find_hash_loop_text data target lo hi mid =
     (if mid < 0 \<or> int (length data) < (mid + 1) * int kTextHashLineBytes then Some OutOfBounds
      else
        let file_hash = drop (nat (mid * int kTextHashLineBytes)) data;
            cmp = strncasecmp target file_hash kTextHashChars
        in
          if 0 = cmp then Some (Returned 1 (of_int (atoi (drop (kTextHashChars + 1) file_hash))))
          else if lo = mid then Some (Returned 0 0)
          else if cmp < 0 then find_hash_loop_text data target lo mid ((lo + mid) sdiv 2)
          else find_hash_loop_text data target mid hi ((mid + hi) sdiv 2))"

text \<open>
  \<^verbatim>\<open>find_hash\<close> of the text program checks the length of the target first; on that
  early return \<^verbatim>\<open>*count\<close> keeps the value \<open>count0\<close> it had at the call. The result
  is paired with the lines written to \<^verbatim>\<open>stderr\<close>.
\<close>

definition find_hash_text ::
  "u8 list \<Rightarrow> nat \<Rightarrow> u8 list \<Rightarrow> u64 \<Rightarrow> (message list \<times> lookup) option" where
  "find_hash_text data file_size target count0 =
     (let lo = 0;
          hi = int (file_size div kTextHashLineBytes) - 1;
          mid = (lo + hi) sdiv 2;
          hash_len = length target
      in
        if hash_len \<noteq> kTextHashChars then
          Some ([HashShouldBe target kTextHashChars hash_len], Returned 0 count0)
        else map_option (Pair []) (find_hash_loop_text data target lo hi mid))"

definition bytes_of_string :: "string \<Rightarrow> u8 list" where
  "bytes_of_string cs = map (\<lambda>c. of_nat (of_char c)) cs"

text \<open>
  \<^verbatim>\<open>handle_input\<close> of the text program has no \<^verbatim>\<open>return\<close> after the search, so it
  returns a value only on the length error.
\<close>

definition handle_input_text ::
  "bool \<Rightarrow> u8 list \<Rightarrow> u8 list \<Rightarrow> nat \<Rightarrow> handled option" where
  "handle_input_text g_password input file_data file_size =
     (let search = (\<lambda>hs.
            map_option (\<lambda>(msgs, r). \<lparr>h_stderr = msgs, h_exit = None, h_lookup = Some r,
                                     h_return = None\<rparr>)
              (find_hash_text file_data file_size hs 0))
      in
        if g_password then
          (case sha1_buffer_flags (Some input) (length input) SHA1_FLAG_UPPER_CASE of
             None \<Rightarrow> search []
           | Some text \<Rightarrow> search (bytes_of_string text))
        else if length input \<noteq> kTextHashChars then
          Some \<lparr>h_stderr = [InvalidHashLength input kTextHashChars (length input)],
                h_exit = None, h_lookup = None, h_return = Some 0\<rparr>
        else search (take (SHA1_BINARY_BYTES * 2) input))"

fun queries_text ::
  "bool \<Rightarrow> u8 list \<Rightarrow> nat \<Rightarrow> u8 list list \<Rightarrow> handled list option" where
  "queries_text g_password file_data file_size [] = Some []"
| "queries_text g_password file_data file_size (q # qs) =
     (case handle_input_text g_password q file_data file_size of
        None \<Rightarrow> None
      | Some r \<Rightarrow>
          if h_exit r \<noteq> None then Some [r]
          else map_option ((#) r) (queries_text g_password file_data file_size qs))"

definition finish_text :: "handled list \<Rightarrow> run" where
  "finish_text rs = \<lparr>exit_status = 0, main_stderr = [], queries = rs\<rparr>"

definition main_text ::
  "bool \<Rightarrow> bool \<Rightarrow> int \<Rightarrow> bool \<Rightarrow> u8 list \<Rightarrow> u8 list list \<Rightarrow> run option" where
  "main_text g_password open_ok file_size mmap_null file_data qs =
     (if \<not> open_ok then
        Some \<lparr>exit_status = 2, main_stderr = [CouldNotOpen], queries = []\<rparr>
      else if file_size < 0 then
        Some \<lparr>exit_status = 3, main_stderr = [SeekFailed], queries = []\<rparr>
      else if 0 = file_size \<or> 0 \<noteq> file_size mod int kTextHashLineBytes then
        Some \<lparr>exit_status = 4, main_stderr = [InvalidFileSize file_size kTextHashLineBytes],
              queries = []\<rparr>
      else if mmap_null then
        Some \<lparr>exit_status = 5, main_stderr = [MmapFailed], queries = []\<rparr>
      else map_option finish_text (queries_text g_password file_data (nat file_size) qs))"

section \<open>Notions used to state the properties of the lookup\<close>

text \<open>
  The hexadecimal digits, as \<^verbatim>\<open>hexval\<close> recognises them, and the outcome of
  \<^verbatim>\<open>handle_input\<close> for a query it rejects: the diagnostics, no exit, no search, return
  value 0.
\<close>

definition ishex :: "u8 \<Rightarrow> bool" where
  "ishex c = ((0x30 \<le> c \<and> c \<le> 0x39) \<or> (0x41 \<le> c \<and> c \<le> 0x46) \<or> (0x61 \<le> c \<and> c \<le> 0x66))"

definition query_error :: "message list \<Rightarrow> handled" where
  "query_error msgs = \<lparr>h_stderr = msgs, h_exit = None, h_lookup = None, h_return = Some 0\<rparr>"

text \<open>
  Two small corpora, sorted by hash, in each format: two binary records, and two text
  lines of 63 bytes (40 hash characters, a colon, the count, blanks, CR LF).
\<close>

definition rec0 :: pwned_info_t where "rec0 = \<lparr>hash = replicate 20 0x11, count = 5\<rparr>"
definition rec1 :: pwned_info_t where "rec1 = \<lparr>hash = replicate 20 0x22, count = 7\<rparr>"
definition line0 :: "u8 list" where
  "line0 = replicate 40 0x31 @ [0x3A, 0x35] @ replicate 19 0x20 @ [0x0D, 0x0A]"
definition line1 :: "u8 list" where
  "line1 = replicate 40 0x32 @ [0x3A, 0x37] @ replicate 19 0x20 @ [0x0D, 0x0A]"

section \<open>Properties of the digest engine\<close>

subsection \<open>NULL pointers and empty input\<close>

text \<open>
  C10. \<^verbatim>\<open>sha1_init_flags\<close>, \<^verbatim>\<open>sha1_update\<close> and \<^verbatim>\<open>sha1_end\<close> return NULL on a NULL
  state and touch nothing; \<^verbatim>\<open>sha1_update\<close> with a NULL data pointer (whatever the
  size) or with size zero (whatever the data pointer) returns the state pointer, and the
  whole state (accumulator, holding area, byte counter, block counter, flags) is as it was.
\<close>

theorem sha1_null_and_empty_are_noops:
  "sha1_init_flags None fl = None \<and>
   sha1_update None data sz = None \<and>
   sha1_end None = None \<and>
   sha1_update (Some s) None sz = Some s \<and>
   sha1_update (Some s) data 0 = Some s"
  by (simp add: sha1_update_def split: option.split)

subsection \<open>Streaming, the state invariant and the padding\<close>

lemma unat_add_mod64: "unat (w + of_nat n :: u64) mod 64 = (unat w + n) mod 64"
proof -
  have d: "(64::nat) dvd 2 ^ 64" by simp
  have "unat (w + of_nat n :: u64) = (unat w + n mod 2 ^ 64) mod 2 ^ 64"
    by (simp add: unat_word_ariths unat_of_nat)
  then have "unat (w + of_nat n :: u64) mod 64 = (unat w + n mod 2 ^ 64) mod 64"
    using d by (simp add: mod_mod_cancel)
  also have "\<dots> = (unat w + n) mod 64"
    using d by (metis mod_add_right_eq mod_mod_cancel)
  finally show ?thesis .
qed

lemma unat_add1_mod64: "unat (w + 1 :: u64) mod 64 = (unat w + 1) mod 64"
  using unat_add_mod64 [of w 1] by simp

lemma length_block_feed [simp]: "length (block (feed x s)) = length (block s)"
  by (simp add: feed_def Let_def)

lemma bytes_feed [simp]: "bytes (feed x s) = bytes s + 1"
  by (simp add: feed_def Let_def)

lemma flags_feed [simp]: "flags (feed x s) = flags s"
  by (simp add: feed_def Let_def)

lemma length_block_fold_feed [simp]: "length (block (fold feed xs s)) = length (block s)"
  by (induction xs arbitrary: s) simp_all

lemma bytes_fold_feed [simp]: "bytes (fold feed xs s) = bytes s + of_nat (length xs)"
  by (induction xs arbitrary: s) (simp_all add: algebra_simps)

lemma flags_fold_feed [simp]: "flags (fold feed xs s) = flags s"
  by (induction xs arbitrary: s) simp_all

lemma memcpy_Cons:
  assumes "off < length dst"
  shows "memcpy (dst[off := x]) (Suc off) xs (length xs) = memcpy dst off (x # xs) (Suc (length xs))"
  using assms by (simp add: memcpy_def take_Suc_conv_app_nth)

lemma memcpy_Nil [simp]: "memcpy dst off [] 0 = dst"
  by (simp add: memcpy_def)

lemma fold_feed_partial:
  assumes "length (block s) = 64" "unat (bytes s) mod 64 + length xs < 64"
  shows "fold feed xs s =
           s\<lparr>block := memcpy (block s) (unat (bytes s) mod 64) xs (length xs),
             bytes := bytes s + of_nat (length xs)\<rparr>"
  using assms
proof (induction xs arbitrary: s)
  case Nil
  then show ?case by simp
next
  case (Cons x xs)
  let ?u = "unat (bytes s) mod 64"
  let ?s1 = "feed x s"
  from Cons.prems have u: "?u < 63" by simp
  then have s1: "?s1 = s\<lparr>block := (block s)[?u := x], bytes := bytes s + 1\<rparr>"
    by (simp add: feed_def Let_def)
  have u1: "unat (bytes ?s1) mod 64 = Suc ?u"
    using u by (simp add: unat_add1_mod64 mod_Suc)
  have "fold feed xs ?s1 =
          ?s1\<lparr>block := memcpy (block ?s1) (unat (bytes ?s1) mod 64) xs (length xs),
              bytes := bytes ?s1 + of_nat (length xs)\<rparr>"
    using Cons.prems u1 by (intro Cons.IH) simp_all
  then have "fold feed xs ?s1 =
          ?s1\<lparr>block := memcpy (block ?s1) (Suc ?u) xs (length xs),
              bytes := bytes ?s1 + of_nat (length xs)\<rparr>"
    by (simp only: u1)
  also have "\<dots> = s\<lparr>block := memcpy ((block s)[?u := x]) (Suc ?u) xs (length xs),
              bytes := bytes s + 1 + of_nat (length xs)\<rparr>"
    by (simp add: s1)
  also have "memcpy ((block s)[?u := x]) (Suc ?u) xs (length xs) =
             memcpy (block s) ?u (x # xs) (Suc (length xs))"
    using u Cons.prems(1) by (intro memcpy_Cons) simp
  finally show ?case by (simp add: algebra_simps)
qed

lemma memcpy_snoc:
  assumes "off + length ys < length dst"
  shows "(memcpy dst off ys (length ys))[off + length ys := y] =
         memcpy dst off (ys @ [y]) (Suc (length ys))"
proof -
  have "drop (off + length ys) dst = dst ! (off + length ys) # drop (Suc (off + length ys)) dst"
    using assms by (simp add: Cons_nth_drop_Suc)
  then show ?thesis
    using assms by (simp add: memcpy_def list_update_append)
qed

lemma fold_feed_fill:
  assumes len: "length (block s) = 64"
    and full: "unat (bytes s) mod 64 + length xs = 64" and ne: "xs \<noteq> []"
  shows "fold feed xs s =
           s\<lparr>block := memcpy (block s) (unat (bytes s) mod 64) xs (length xs),
             bytes := bytes s + of_nat (length xs),
             h := sha1_hash_block (h s) (memcpy (block s) (unat (bytes s) mod 64) xs (length xs)),
             blocks := blocks s + 1\<rparr>"
proof -
  let ?u = "unat (bytes s) mod 64"
  from ne obtain ys y where xs: "xs = ys @ [y]"
    by (cases xs rule: rev_cases) auto
  from full xs have uy: "?u + length ys = 63" by simp
  let ?s1 = "fold feed ys s"
  have s1: "?s1 = s\<lparr>block := memcpy (block s) ?u ys (length ys),
                       bytes := bytes s + of_nat (length ys)\<rparr>"
    using len uy by (intro fold_feed_partial) simp_all
  have u1: "unat (bytes ?s1) mod 64 = 63"
  proof -
    have "(unat (bytes s) + length ys) mod 64 = (?u + length ys) mod 64"
      by (simp add: mod_add_left_eq)
    then show ?thesis
      by (simp add: s1 unat_add_mod64 uy)
  qed
  have blk: "(memcpy (block s) ?u ys (length ys))[63 := y] =
             memcpy (block s) ?u (ys @ [y]) (Suc (length ys))"
    using memcpy_snoc [of ?u ys "block s" y] len uy by simp
  have "fold feed xs s = feed y ?s1"
    by (simp add: xs)
  also have "\<dots> = ?s1\<lparr>block := (block ?s1)[63 := y], bytes := bytes ?s1 + 1,
                h := sha1_hash_block (h ?s1) ((block ?s1)[63 := y]),
                blocks := blocks ?s1 + 1\<rparr>"
    unfolding feed_def Let_def u1 by simp
  also have "\<dots> = s\<lparr>block := (memcpy (block s) ?u ys (length ys))[63 := y],
                bytes := bytes s + of_nat (length ys) + 1,
                h := sha1_hash_block (h s) ((memcpy (block s) ?u ys (length ys))[63 := y]),
                blocks := blocks s + 1\<rparr>"
    by (simp add: s1)
  finally show ?thesis
    by (simp add: blk xs algebra_simps)
qed

lemma memcpy_whole:
  "length dst = 64 \<Longrightarrow> 64 \<le> length b \<Longrightarrow> memcpy dst 0 b 64 = take 64 b"
  by (simp add: memcpy_def)

lemma sha1_update_loop_fold:
  assumes "length (block s) = 64" "unat (bytes s) mod 64 = 0" "sz = length b"
  shows "sha1_update_loop s b sz =
           (fold feed (take (sz - sz mod 64) b) s, drop (sz - sz mod 64) b, sz mod 64)"
  using assms
proof (induction s b sz rule: sha1_update_loop.induct)
  case (1 s b sz)
  show ?case
  proof (cases "sz \<ge> 64")
    case False
    then show ?thesis
      by (subst sha1_update_loop.simps) simp
  next
    case True
    let ?blk = "memcpy (block s) 0 b 64"
    let ?s1 = "s\<lparr>block := ?blk, bytes := bytes s + 64,
                  h := sha1_hash_block (h s) ?blk, blocks := blocks s + 1\<rparr>"
    have blk: "?blk = take 64 b"
      using True "1.prems" by (simp add: memcpy_whole)
    have "fold feed (take 64 b) s =
            s\<lparr>block := memcpy (block s) (unat (bytes s) mod 64) (take 64 b) (length (take 64 b)),
              bytes := bytes s + of_nat (length (take 64 b)),
              h := sha1_hash_block (h s)
                     (memcpy (block s) (unat (bytes s) mod 64) (take 64 b) (length (take 64 b))),
              blocks := blocks s + 1\<rparr>"
      using True "1.prems" by (intro fold_feed_fill) auto
    moreover have "memcpy (block s) 0 (take 64 b) 64 = take 64 b"
      using True "1.prems" by (simp add: memcpy_def)
    ultimately have s1: "fold feed (take 64 b) s = ?s1"
      using True "1.prems" by (simp add: blk min_def)
    have len1: "length (block ?s1) = 64"
      using True "1.prems" by (simp add: blk)
    have u1: "unat (bytes ?s1) mod 64 = 0"
      using unat_add_mod64 [of "bytes s" 64] "1.prems"(2) by simp
    have ih: "sha1_update_loop ?s1 (drop 64 b) (sz - 64) =
            (fold feed (take ((sz - 64) - (sz - 64) mod 64) (drop 64 b)) ?s1,
             drop ((sz - 64) - (sz - 64) mod 64) (drop 64 b), (sz - 64) mod 64)"
      using True "1.prems"(3) len1 u1 by (intro "1.IH" [OF True refl]) simp_all
    have m: "(sz - 64) mod 64 = sz mod 64"
      using True by (simp add: le_mod_geq)
    have k: "sz - sz mod 64 = 64 + ((sz - 64) - sz mod 64)"
      using True by (metis m Nat.add_diff_assoc le_add_diff_inverse mod_less_eq_dividend)
    have "take (sz - sz mod 64) b = take 64 b @ take ((sz - 64) - sz mod 64) (drop 64 b)"
      by (simp add: k take_add)
    then have f: "fold feed (take (sz - sz mod 64) b) s =
                  fold feed (take ((sz - 64) - sz mod 64) (drop 64 b)) ?s1"
      by (simp add: s1)
    have d: "drop (sz - sz mod 64) b = drop ((sz - 64) - sz mod 64) (drop 64 b)"
      by (simp add: k add.commute)
    show ?thesis
      using True by (subst sha1_update_loop.simps) (simp add: Let_def ih m f d)
  qed
qed

lemma add_aligned_mod64: "a mod 64 = 0 \<Longrightarrow> (a + (n - n mod 64)) mod 64 = (0::nat)"
proof -
  assume a: "a mod 64 = 0"
  have "n - n mod 64 = 64 * (n div 64)" by (simp add: minus_mod_eq_mult_div)
  then show ?thesis using a by (simp add: mod_add_left_eq [symmetric])
qed

lemma add_free_mod64: "(a + (64 - a mod 64)) mod 64 = (0::nat)"
proof -
  define q r where "q = a div 64" and "r = a mod 64"
  have r: "r < 64" and a: "a = 64 * q + r"
    by (simp_all add: q_def r_def)
  have "a + (64 - r) = 64 * (q + 1)"
    using r a by simp
  then show ?thesis
    by (simp only: r_def [symmetric] mod_mult_self1_is_0)
qed

lemma sha1_update_unfold:
  assumes "b \<noteq> []" "\<not> length b < 64 - unat (bytes s) mod 64"
    and "free = 64 - unat (bytes s) mod 64"
    and "blk = memcpy (block s) (unat (bytes s) mod 64) b free"
    and "s1 = s\<lparr>block := blk, bytes := bytes s + of_nat free,
                 h := sha1_hash_block (h s) blk, blocks := blocks s + 1\<rparr>"
    and "sha1_update_loop s1 (drop free b) (length b - free) = (s2, b2, sz2)"
  shows "sha1_update (Some s) (Some b) (length b) =
           (if sz2 > 0 then Some (s2\<lparr>block := memcpy (block s2) 0 b2 sz2,
                                     bytes := bytes s2 + of_nat sz2\<rparr>)
            else Some s2)"
  using assms(1,2) assms(6) [unfolded assms(5) assms(4) assms(3)]
  unfolding sha1_update_def Let_def by (simp del: of_nat_diff)

lemma sha1_update_fold:
  assumes len: "length (block s) = 64"
  shows "sha1_update (Some s) (Some b) (length b) = Some (fold feed b s)"
proof (cases "b = []")
  case True
  then show ?thesis by (simp add: sha1_update_def)
next
  case ne: False
  let ?u = "unat (bytes s) mod 64"
  have u: "?u < 64" by simp
  show ?thesis
  proof (cases "length b < 64 - ?u")
    case True
    then have "fold feed b s =
                 s\<lparr>block := memcpy (block s) ?u b (length b),
                   bytes := bytes s + of_nat (length b)\<rparr>"
      using len by (intro fold_feed_partial) simp_all
    then show ?thesis
      using True ne by (simp add: sha1_update_def Let_def)
  next
    case False
    define free where "free = 64 - ?u"
    define hd_b where "hd_b = take free b"
    define rest where "rest = drop free b"
    define blk where "blk = memcpy (block s) ?u b free"
    define s1 where "s1 = s\<lparr>block := blk, bytes := bytes s + of_nat free,
                  h := sha1_hash_block (h s) blk, blocks := blocks s + 1\<rparr>"
    define sz where "sz = length b - free"
    define k where "k = sz - sz mod 64"
    define s2 where "s2 = fold feed (take k rest) s1"
    define b2 where "b2 = drop k rest"
    have lhd: "length hd_b = free"
      using False by (simp add: hd_b_def free_def)
    have hd_ne: "hd_b \<noteq> []"
      using lhd u by (auto simp: free_def)
    have lrest: "length rest = sz"
      by (simp add: rest_def sz_def)
    have blk: "memcpy (block s) ?u hd_b free = blk"
      by (simp add: memcpy_def blk_def hd_b_def)
    have "fold feed hd_b s =
            s\<lparr>block := memcpy (block s) ?u hd_b (length hd_b),
              bytes := bytes s + of_nat (length hd_b),
              h := sha1_hash_block (h s) (memcpy (block s) ?u hd_b (length hd_b)),
              blocks := blocks s + 1\<rparr>"
      using len hd_ne u by (intro fold_feed_fill) (simp_all add: lhd free_def)
    then have s1: "fold feed hd_b s = s1"
      by (simp only: lhd blk s1_def)
    have len1: "length (block s1) = 64"
      using len length_block_fold_feed [of hd_b s] by (simp only: s1)
    have u1: "unat (bytes s1) mod 64 = 0"
    proof -
      have "unat (bytes (fold feed hd_b s)) mod 64 = (unat (bytes s) + length hd_b) mod 64"
        by (simp only: bytes_fold_feed unat_add_mod64)
      then have "unat (bytes s1) mod 64 = (unat (bytes s) + (64 - ?u)) mod 64"
        by (simp only: s1 lhd free_def)
      also have "\<dots> = 0"
        by (rule add_free_mod64)
      finally show ?thesis .
    qed
    have loop: "sha1_update_loop s1 rest sz = (s2, b2, sz mod 64)"
      unfolding s2_def b2_def k_def using len1 u1 lrest
      by (intro sha1_update_loop_fold) simp_all
    have len2: "length (block s2) = 64"
      using len1 by (simp add: s2_def)
    have lk: "length (take k rest) = k"
      by (simp add: lrest k_def)
    have u2: "unat (bytes s2) mod 64 = 0"
    proof -
      have "unat (bytes s2) mod 64 = (unat (bytes s1) + length (take k rest)) mod 64"
        unfolding s2_def by (simp only: bytes_fold_feed unat_add_mod64)
      also have "\<dots> = (unat (bytes s1) + (sz - sz mod 64)) mod 64"
        using lk by (simp only: k_def)
      also have "\<dots> = 0"
        using u1 by (rule add_aligned_mod64)
      finally show ?thesis .
    qed
    have lb2: "length b2 = sz mod 64"
    proof -
      have "sz mod 64 \<le> sz" by (rule mod_less_eq_dividend)
      then have "sz - k = sz mod 64" unfolding k_def by (rule diff_diff_cancel)
      then show ?thesis by (simp add: b2_def lrest)
    qed
    have tail: "fold feed b2 s2 =
                  s2\<lparr>block := memcpy (block s2) (unat (bytes s2) mod 64) b2 (length b2),
                      bytes := bytes s2 + of_nat (length b2)\<rparr>"
      using len2 by (rule fold_feed_partial) (simp add: u2 lb2)
    have all: "fold feed b s = fold feed b2 s2"
    proof -
      have "b = hd_b @ take k rest @ b2"
        unfolding hd_b_def rest_def b2_def by (simp only: append_take_drop_id)
      then have "fold feed b s = fold feed (hd_b @ take k rest @ b2) s" by simp
      also have "\<dots> = fold feed b2 (fold feed (take k rest) (fold feed hd_b s))"
        by (simp only: fold_append comp_apply)
      finally show ?thesis by (simp only: s1 s2_def)
    qed
    have upd: "sha1_update (Some s) (Some b) (length b) =
           (if sz mod 64 > 0 then Some (s2\<lparr>block := memcpy (block s2) 0 b2 (sz mod 64),
                                     bytes := bytes s2 + of_nat (sz mod 64)\<rparr>)
            else Some s2)"
      unfolding sz_def
      using ne False free_def blk_def s1_def loop [unfolded rest_def sz_def]
      by (rule sha1_update_unfold)
    show ?thesis
    proof (cases "sz mod 64 > 0")
      case True
      then show ?thesis
        using tail by (simp add: upd all u2 lb2)
    next
      case z: False
      then have "b2 = []" using lb2 by simp
      then show ?thesis
        using z by (simp add: upd all)
    qed
  qed
qed

lemma sha1_update_fragments_fold:
  "length (block s) = 64 \<Longrightarrow> sha1_update_fragments (Some s) fs = Some (fold feed (concat fs) s)"
proof (induction fs arbitrary: s)
  case Nil
  then show ?case by (simp add: sha1_update_fragments_def)
next
  case (Cons f fs)
  have "sha1_update_fragments (Some s) (f # fs) =
        sha1_update_fragments (sha1_update (Some s) (Some f) (length f)) fs"
    by (simp add: sha1_update_fragments_def)
  also have "\<dots> = sha1_update_fragments (Some (fold feed f s)) fs"
    using Cons.prems by (simp only: sha1_update_fold)
  also have "\<dots> = Some (fold feed (concat fs) (fold feed f s))"
    using Cons.prems by (intro Cons.IH) simp
  finally show ?case by simp
qed

lemma length_block_init [simp]: "length (block sha1_initialized) = 64"
  by (simp add: sha1_initialized_def SHA1_INIT_FLAGS_def)

text \<open>
  C3. For every byte sequence and every way of cutting it into fragments \<open>fs\<close> (any cut
  points, aligned to blocks or not, fragments of length zero included), initialising a
  state and calling \<^verbatim>\<open>sha1_update\<close> once per fragment gives exactly the state that
  initialising and calling \<^verbatim>\<open>sha1_update\<close> once with the concatenation gives, and
  so the same result of \<^verbatim>\<open>sha1_end\<close>. The state compared is the whole record:
  accumulator, holding area, byte counter, block counter and flags.
\<close>

theorem sha1_update_streaming:
  "sha1_update_fragments (sha1_init_flags (Some s0) fl) fs =
     sha1_update (sha1_init_flags (Some s0) fl) (Some (concat fs)) (length (concat fs)) \<and>
   sha1_end (sha1_update_fragments (sha1_init_flags (Some s0) fl) fs) =
     sha1_end (sha1_update (sha1_init_flags (Some s0) fl) (Some (concat fs)) (length (concat fs))) \<and>
   sha1_update_fragments (sha1_init (Some s0)) fs =
     sha1_update (sha1_init (Some s0)) (Some (concat fs)) (length (concat fs))"
  by (simp add: sha1_init_def sha1_update_fragments_fold sha1_update_fold)

lemma full_blocks_short: "length xs < 64 \<Longrightarrow> full_blocks xs = []"
  by (simp add: full_blocks_def)

lemma full_blocks_step:
  assumes "64 \<le> length xs"
  shows "full_blocks xs = take 64 xs # full_blocks (drop 64 xs)"
proof -
  from assms have d: "length xs div 64 = Suc ((length xs - 64) div 64)"
    by (simp add: le_div_geq)
  have "[0..<Suc ((length xs - 64) div 64)] = 0 # map Suc [0..<(length xs - 64) div 64]"
    by (simp only: upt_conv_Cons zero_less_Suc map_Suc_upt)
  then show ?thesis
    by (simp add: full_blocks_def d comp_def add.commute)
qed

lemma staged_tail_short: "length xs < 64 \<Longrightarrow> staged_tail xs = xs"
  by (simp add: staged_tail_def)

lemma staged_tail_step: "64 \<le> length xs \<Longrightarrow> staged_tail xs = staged_tail (drop 64 xs)"
  by (simp add: staged_tail_def le_div_geq add.commute)

lemma length_staged_tail [simp]: "length (staged_tail xs) = length xs mod 64"
  by (simp add: staged_tail_def minus_mult_div_eq_mod)

lemma fold_feed_whole:
  assumes "length (block s) = 64" "unat (bytes s) mod 64 = 0" "length ys = 64"
  shows "fold feed ys s = s\<lparr>block := ys, bytes := bytes s + 64,
           h := sha1_hash_block (h s) ys, blocks := blocks s + 1\<rparr>"
proof -
  have "ys \<noteq> []" using assms(3) by auto
  then have "fold feed ys s =
           s\<lparr>block := memcpy (block s) (unat (bytes s) mod 64) ys (length ys),
             bytes := bytes s + of_nat (length ys),
             h := sha1_hash_block (h s) (memcpy (block s) (unat (bytes s) mod 64) ys (length ys)),
             blocks := blocks s + 1\<rparr>"
    using assms by (intro fold_feed_fill) simp_all
  moreover have "memcpy (block s) 0 ys 64 = ys"
    using assms by (simp add: memcpy_def)
  ultimately show ?thesis
    using assms by simp
qed

lemma fold_feed_blocks:
  assumes "length (block s) = 64" "unat (bytes s) mod 64 = 0"
  shows "h (fold feed xs s) = foldl sha1_hash_block (h s) (full_blocks xs) \<and>
         take (length xs mod 64) (block (fold feed xs s)) = staged_tail xs \<and>
         blocks (fold feed xs s) = blocks s + of_nat (length xs div 64)"
  using assms
proof (induction xs arbitrary: s rule: length_induct)
  case (1 xs)
  show ?case
  proof (cases "length xs < 64")
    case True
    then have "fold feed xs s =
                 s\<lparr>block := memcpy (block s) (unat (bytes s) mod 64) xs (length xs),
                   bytes := bytes s + of_nat (length xs)\<rparr>"
      using "1.prems" by (intro fold_feed_partial) simp_all
    then show ?thesis
      using True "1.prems" by (simp add: full_blocks_short staged_tail_short memcpy_def)
  next
    case False
    define s1 where "s1 = fold feed (take 64 xs) s"
    have s1: "s1 = s\<lparr>block := take 64 xs, bytes := bytes s + 64,
              h := sha1_hash_block (h s) (take 64 xs), blocks := blocks s + 1\<rparr>"
      unfolding s1_def using False "1.prems" by (intro fold_feed_whole) simp_all
    have len1: "length (block s1) = 64"
      using "1.prems" by (simp add: s1_def)
    have u1: "unat (bytes s1) mod 64 = 0"
      using unat_add_mod64 [of "bytes s" 64] "1.prems"(2) by (simp add: s1)
    have split: "fold feed xs s = fold feed (drop 64 xs) s1"
    proof -
      have "fold feed (take 64 xs @ drop 64 xs) s = fold feed (drop 64 xs) s1"
        unfolding s1_def by (simp only: fold_append comp_apply)
      then show ?thesis by simp
    qed
    have ih: "h (fold feed (drop 64 xs) s1) = foldl sha1_hash_block (h s1) (full_blocks (drop 64 xs)) \<and>
         take (length (drop 64 xs) mod 64) (block (fold feed (drop 64 xs) s1)) = staged_tail (drop 64 xs) \<and>
         blocks (fold feed (drop 64 xs) s1) = blocks s1 + of_nat (length (drop 64 xs) div 64)"
      using False len1 u1 by (intro "1.IH" [rule_format]) simp_all
    have m: "(length xs - 64) mod 64 = length xs mod 64"
      using False by (simp add: le_mod_geq)
    have d: "length xs div 64 = Suc ((length xs - 64) div 64)"
      using False by (simp add: le_div_geq)
    show ?thesis
      using False ih
      by (simp add: split full_blocks_step staged_tail_step m d s1)
  qed
qed

lemma unat_of_nat_mod64: "unat (of_nat n :: u64) mod 64 = n mod 64"
  using unat_add_mod64 [of 0 n] by simp

lemma sha1_fragments_state:
  fixes fs :: "u8 list list" and fl :: u32
  defines "s \<equiv> fold feed (concat fs) (sha1_initialized\<lparr>flags := fl\<rparr>)"
  shows "sha1_update_fragments (sha1_init_flags (Some s0) fl) fs = Some s"
    and "length (block s) = 64"
    and "bytes s = of_nat (length (concat fs))"
    and "unat (bytes s) mod 64 = length (concat fs) mod 64"
    and "take (length (concat fs) mod 64) (block s) = staged_tail (concat fs)"
    and "h s = foldl sha1_hash_block (h sha1_initialized) (full_blocks (concat fs))"
    and "blocks s = of_nat (length (concat fs) div 64)"
    and "flags s = fl"
proof -
  let ?i = "sha1_initialized\<lparr>flags := fl\<rparr>"
  have b0: "bytes ?i = 0" and k0: "blocks ?i = 0"
    by (simp_all add: sha1_initialized_def SHA1_INIT_FLAGS_def)
  show "sha1_update_fragments (sha1_init_flags (Some s0) fl) fs = Some s"
    by (simp add: s_def sha1_update_fragments_fold)
  show "length (block s) = 64" by (simp add: s_def)
  show bs: "bytes s = of_nat (length (concat fs))" by (simp add: s_def b0)
  show "unat (bytes s) mod 64 = length (concat fs) mod 64"
    by (simp only: bs unat_of_nat_mod64)
  have "h (fold feed (concat fs) ?i) = foldl sha1_hash_block (h ?i) (full_blocks (concat fs)) \<and>
         take (length (concat fs) mod 64) (block (fold feed (concat fs) ?i)) = staged_tail (concat fs) \<and>
         blocks (fold feed (concat fs) ?i) = blocks ?i + of_nat (length (concat fs) div 64)"
    by (rule fold_feed_blocks) (simp_all add: b0)
  then show "take (length (concat fs) mod 64) (block s) = staged_tail (concat fs)"
    and "h s = foldl sha1_hash_block (h sha1_initialized) (full_blocks (concat fs))"
    and "blocks s = of_nat (length (concat fs) div 64)"
    by (simp_all add: s_def k0)
  show "flags s = fl" by (simp add: s_def)
qed

lemma concat_full_blocks: "concat (full_blocks xs) @ staged_tail xs = xs"
proof (induction xs rule: length_induct)
  case (1 xs)
  show ?case
  proof (cases "length xs < 64")
    case True
    then show ?thesis by (simp add: full_blocks_short staged_tail_short)
  next
    case False
    then have "concat (full_blocks (drop 64 xs)) @ staged_tail (drop 64 xs) = drop 64 xs"
      by (intro "1.IH" [rule_format]) simp
    then show ?thesis
      using False by (simp add: full_blocks_step staged_tail_step)
  qed
qed

text \<open>
  C9. After \<^verbatim>\<open>sha1_init\<close> or \<^verbatim>\<open>sha1_init_flags\<close> and any sequence of
  \<^verbatim>\<open>sha1_update\<close> calls (so after each call of a longer sequence), the byte counter
  modulo 64 is the number of input bytes that are staged and not yet hashed: the
  accumulator is the compression of the full blocks of the input, the rest of the input
  (\<open>staged_tail\<close>, fewer than 64 bytes) is the front of the holding area, and its length
  is the counter modulo 64. With no call at all the counter is 0 and nothing is staged.
\<close>

theorem sha1_counter_tracks_staged_bytes:
  "\<exists>s. sha1_update_fragments (sha1_init_flags (Some s0) fl) fs = Some s \<and>
       unat (bytes s) mod 64 = length (staged_tail (concat fs)) \<and>
       take (unat (bytes s) mod 64) (block s) = staged_tail (concat fs) \<and>
       h s = foldl sha1_hash_block (h sha1_initialized) (full_blocks (concat fs)) \<and>
       concat (full_blocks (concat fs)) @ staged_tail (concat fs) = concat fs \<and>
       length (block s) = 64 \<and>
       bytes s = of_nat (length (concat fs)) \<and>
       sha1_init (Some s0) = sha1_init_flags (Some s0) SHA1_FLAGS_DEFAULT"
  using sha1_fragments_state [where fs = fs and fl = fl]
  by (simp add: concat_full_blocks sha1_init_def)

lemma list_update_numeral: "(x # xs)[numeral k := y] = x # xs[pred_numeral k := y]"
  by (simp add: numeral_eq_Suc)

lemma store_be64_eq:
  assumes "length blk = 64"
  shows "store_be64 blk bits = take 56 blk @ be64 bits"
proof -
  define p q where "p = take 56 blk" and "q = drop 56 blk"
  have pq: "blk = p @ q" and lp: "length p = 56" and lq: "length q = 8"
    using assms by (simp_all add: p_def q_def)
  from lq obtain q0 q1 q2 q3 q4 q5 q6 q7 where q: "q = [q0, q1, q2, q3, q4, q5, q6, q7]"
    by (auto simp: numeral_eq_Suc length_Suc_conv)
  show ?thesis
    unfolding store_be64_def be64_def pq q
    by (simp add: lp list_update_append list_update_numeral)
qed

lemma take_Suc_update: "i < length xs \<Longrightarrow> take (Suc i) (xs[i := x]) = take i xs @ [x]"
  by (simp add: take_Suc_conv_app_nth)

lemma sha1_end_pad:
  assumes len: "length (block s) = 64"
  defines "used \<equiv> unat (bytes s) mod 64"
  defines "staged \<equiv> take used (block s)"
  defines "B \<equiv> staged @ [0x80] @ replicate (55 - used) 0 @ be64 (8 * bytes s)"
  defines "B1 \<equiv> staged @ [0x80] @ replicate (63 - used) 0"
  defines "B2 \<equiv> replicate 56 0 @ be64 (8 * bytes s)"
  shows "sha1_end (Some s) =
           Some (if used < 56
                 then s\<lparr>block := B, h := sha1_hash_block (h s) B, blocks := blocks s + 1\<rparr>
                 else s\<lparr>block := B2, h := sha1_hash_block (sha1_hash_block (h s) B1) B2,
                        blocks := blocks s + 2\<rparr>)"
proof -
  have u: "used < 64" by (simp add: used_def)
  define blk1 where "blk1 = (block s)[used := 0x80]"
  have l1: "length blk1 = 64" by (simp add: blk1_def len)
  have t1: "take (Suc used) blk1 = staged @ [0x80]"
    unfolding blk1_def staged_def using u len by (intro take_Suc_update) simp
  show ?thesis
  proof (cases "used < 56")
    case True
    define blk2 where "blk2 = memset blk1 (Suc used) 0 (55 - used)"
    have b2: "blk2 = staged @ [0x80] @ replicate (55 - used) 0 @ drop 56 blk1"
      using True by (simp add: blk2_def memset_def t1)
    have l2: "length blk2 = 64"
      using True l1 by (simp add: b2 staged_def len)
    define pre where "pre = staged @ [0x80] @ replicate (55 - used) 0"
    have lpre: "length pre = 56"
      using True by (simp add: pre_def staged_def len)
    have "blk2 = pre @ drop 56 blk1"
      by (simp add: b2 pre_def)
    then have "take 56 blk2 = pre"
      using lpre by simp
    then have "take 56 blk2 = staged @ [0x80] @ replicate (55 - used) 0"
      by (simp only: pre_def)
    then have "store_be64 blk2 (8 * bytes s) = B"
      using l2 by (simp add: store_be64_eq B_def)
    then show ?thesis
      using True
      by (simp add: sha1_end.simps(2) Let_def used_def [symmetric] blk1_def [symmetric]
            blk2_def [symmetric])
  next
    case False
    define blk2 where "blk2 = memset blk1 (Suc used) 0 (63 - used)"
    have b2: "blk2 = B1"
      using u l1 by (simp add: blk2_def memset_def t1 B1_def)
    have l2: "length blk2 = 64"
      using u by (simp add: b2 B1_def staged_def len)
    define blk3 where "blk3 = memset blk2 0 0 56"
    have b3: "blk3 = replicate 56 0 @ drop 56 blk2"
      by (simp add: blk3_def memset_def)
    have l3: "length blk3 = 64"
      using l2 by (simp add: b3)
    have "store_be64 blk3 (8 * bytes s) = B2"
      using l3 by (simp add: store_be64_eq B2_def b3)
    then have "store_be64 (memset B1 0 0 56) (8 * bytes s) = B2"
      by (simp only: blk3_def b2)
    then show ?thesis
      using False b2
      by (simp add: sha1_end.simps(2) Let_def used_def [symmetric] blk1_def [symmetric]
            blk2_def [symmetric] blk3_def [symmetric])
  qed
qed

lemma len8_simp: "LENGTH(8) = 8"
  by simp

lemma byte_of_word: "unat (ucast (drop_bit k w AND 0xFF :: u64) :: u8) = unat w div 2 ^ k mod 256"
proof -
  have "(drop_bit k w AND 0xFF :: u64) = take_bit 8 (drop_bit k w)"
    using take_bit_eq_mask [of 8 "drop_bit k w"] by (simp add: mask_eq_exp_minus_1)
  then have "unat (ucast (drop_bit k w AND 0xFF :: u64) :: u8) =
             take_bit 8 (take_bit 8 (drop_bit k (unat w)))"
    by (simp only: unsigned_ucast_eq unsigned_take_bit_eq unat_drop_bit_eq len8_simp)
  then show ?thesis
    by (simp add: take_bit_eq_mod drop_bit_eq_div)
qed

lemma be_value_be64: "be_value (be64 w) = unat w"
proof -
  define n where "n = unat w"
  have n: "n < 2 ^ 64" using unsigned_less [of w] by (simp add: n_def)
  have step: "\<And>a. 256 * (n div (a * 256)) + n div a mod 256 = n div a"
    by (simp add: div_mult2_eq)
  have top: "n div 2 ^ 56 mod 256 = n div 2 ^ 56"
    using n by (simp add: less_mult_imp_div_less)
  have "be_value (be64 w) =
        256 * (256 * (256 * (256 * (256 * (256 * (256 * (n div 2 ^ 56 mod 256) + n div 2 ^ 48 mod 256)
          + n div 2 ^ 40 mod 256) + n div 2 ^ 32 mod 256) + n div 2 ^ 24 mod 256)
          + n div 2 ^ 16 mod 256) + n div 2 ^ 8 mod 256) + n div 2 ^ 0 mod 256"
    unfolding be64_def be_value.simps foldl.simps byte_of_word n_def by simp
  also have "\<dots> = n"
    unfolding top
    using step [of "2 ^ 48"] step [of "2 ^ 40"] step [of "2 ^ 32"] step [of "2 ^ 24"]
      step [of "2 ^ 16"] step [of "2 ^ 8"] step [of 1]
    by simp
  finally show ?thesis by (simp add: n_def)
qed

lemma full_blocks_one: "length xs = 64 \<Longrightarrow> full_blocks xs = [xs]"
  by (simp add: full_blocks_step full_blocks_short)

lemma full_blocks_two:
  "length xs = 64 \<Longrightarrow> length ys = 64 \<Longrightarrow> full_blocks (xs @ ys) = [xs, ys]"
  by (simp add: full_blocks_step full_blocks_short)

lemma length_be64 [simp]: "length (be64 w) = 8"
  by (simp add: be64_def)

text \<open>
  C4. For the state reached from initialisation by updates that total \<open>N\<close> input bytes,
  \<^verbatim>\<open>sha1_end\<close> hashes exactly the blocks of \<open>sha1_padded\<close>: the staged bytes, one byte
  \<open>0x80\<close>, zero bytes until eight bytes remain in the current block (one block) or, when
  fewer than eight remain after the \<open>0x80\<close>, in a fresh block (two blocks), and in those
  last eight bytes \<open>8 * N\<close> as a 64-bit big-endian integer (so modulo \<open>2 ^ 64\<close>). The
  compression round runs on each of these blocks in order, the block counter grows by
  their number, and the holding area is left holding the last one.
\<close>

theorem sha1_end_pads_and_hashes:
  "\<exists>s. sha1_update_fragments (sha1_init_flags (Some s0) fl) fs = Some s \<and>
     (let N = length (concat fs);
          P = sha1_padded (staged_tail (concat fs)) N
      in sha1_end (Some s) =
           Some (s\<lparr>block := last (full_blocks P),
                   h := foldl sha1_hash_block (h s) (full_blocks P),
                   blocks := blocks s + of_nat (length (full_blocks P))\<rparr>) \<and>
         concat (full_blocks P) = P \<and>
         length (full_blocks P) = (if N mod 64 + 1 \<le> 56 then 1 else 2) \<and>
         be_value (drop (length P - 8) P) = (8 * N) mod 2 ^ 64)"
proof -
  define s where "s = fold feed (concat fs) (sha1_initialized\<lparr>flags := fl\<rparr>)"
  define N where "N = length (concat fs)"
  define staged where "staged = staged_tail (concat fs)"
  define P where "P = sha1_padded staged N"
  note st = sha1_fragments_state [where fs = fs and fl = fl, folded s_def N_def staged_def]
  have ls: "length staged = N mod 64"
    by (simp add: staged_def N_def)
  have used: "unat (bytes s) mod 64 = N mod 64"
    by (rule st(4))
  have tk: "take (N mod 64) (block s) = staged"
    by (rule st(5))
  have bits: "8 * bytes s = of_nat (8 * N)"
    by (simp add: st(3))
  have bev: "be_value (be64 (of_nat (8 * N))) = (8 * N) mod 2 ^ 64"
    by (simp only: be_value_be64 unat_of_nat) simp
  define B where "B = staged @ [0x80] @ replicate (55 - N mod 64) 0 @ be64 (of_nat (8 * N))"
  define B1 where "B1 = staged @ [(0x80::u8)] @ replicate (63 - N mod 64) 0"
  define B2 where "B2 = replicate 56 0 @ be64 (of_nat (8 * N))"
  have e: "sha1_end (Some s) =
           Some (if N mod 64 < 56
                 then s\<lparr>block := B, h := sha1_hash_block (h s) B, blocks := blocks s + 1\<rparr>
                 else s\<lparr>block := B2, h := sha1_hash_block (sha1_hash_block (h s) B1) B2,
                        blocks := blocks s + 2\<rparr>)"
    using sha1_end_pad [OF st(2)] unfolding used tk bits B_def B1_def B2_def .
  have run: "sha1_end (Some s) =
           Some (s\<lparr>block := last (full_blocks P),
                   h := foldl sha1_hash_block (h s) (full_blocks P),
                   blocks := blocks s + of_nat (length (full_blocks P))\<rparr>) \<and>
         concat (full_blocks P) = P \<and>
         length (full_blocks P) = (if N mod 64 + 1 \<le> 56 then 1 else 2) \<and>
         be_value (drop (length P - 8) P) = (8 * N) mod 2 ^ 64"
  proof (cases "N mod 64 < 56")
    case True
    have P: "P = B"
      using True by (simp add: P_def sha1_padded_def ls B_def)
    have lB: "length B = 64"
      using True by (simp add: B_def ls)
    define pre where "pre = staged @ [0x80] @ replicate (55 - N mod 64) 0"
    have lpre: "length pre = 56"
      using True by (simp add: pre_def ls)
    have Bpre: "B = pre @ be64 (of_nat (8 * N))"
      by (simp add: B_def pre_def)
    have "drop (length B - 8) B = be64 (of_nat (8 * N))"
      unfolding Bpre by (simp add: lpre)
    then have "be_value (drop (length B - 8) B) = (8 * N) mod 2 ^ 64"
      by (simp only: bev)
    then show ?thesis
      using True by (simp add: e P full_blocks_one lB del: be_value.simps)
  next
    case False
    have n: "N mod 64 < 64" by simp
    have "119 - N mod 64 = (63 - N mod 64) + 56"
      using n by simp
    then have r: "replicate (119 - N mod 64) (0::u8) = replicate (63 - N mod 64) 0 @ replicate 56 0"
      by (simp only: replicate_add)
    have P: "P = B1 @ B2"
      using False by (simp add: P_def sha1_padded_def ls B1_def B2_def r)
    have l1: "length B1 = 64" and l2: "length B2 = 64"
      using n by (simp_all add: B1_def B2_def ls)
    have "drop (length (B1 @ B2) - 8) (B1 @ B2) = be64 (of_nat (8 * N))"
      by (simp add: l1 l2) (simp add: B2_def)
    then have "be_value (drop (length (B1 @ B2) - 8) (B1 @ B2)) = (8 * N) mod 2 ^ 64"
      by (simp only: bev)
    then show ?thesis
      using False
      by (simp add: e P full_blocks_two l1 l2 del: be_value.simps)
  qed
  show ?thesis
    using st(1) run by (simp add: Let_def N_def P_def staged_def del: be_value.simps)
qed

section \<open>Properties of the lookup\<close>

subsection \<open>The search loop ends\<close>

lemma sdiv2_nonneg: "0 \<le> a \<Longrightarrow> a sdiv 2 = a div (2::int)"
  by (simp add: signed_divide_int_def sgn_if)

lemma find_hash_loop_bin_returns:
  assumes "0 \<le> lo" "lo \<le> hi" "hi < int (length data)" "mid = (lo + hi) sdiv 2"
  shows "\<exists>r. find_hash_loop_bin data target lo hi mid = Some r \<and>
             (r = Returned 0 0 \<or>
              (\<exists>i < length data. memcmp target (hash (data ! i)) SHA1_BINARY_BYTES = 0 \<and>
                   r = Returned 1 (ucast (count (data ! i)))))"
  using assms
proof (induction "nat (hi - lo)" arbitrary: lo hi mid rule: less_induct)
  case less
  have mid: "mid = (lo + hi) div 2"
    using less.prems by (simp add: sdiv2_nonneg)
  have bounds: "lo \<le> mid" "mid \<le> hi" "0 \<le> mid" "mid < int (length data)"
    using less.prems(1-3) by (simp_all add: mid)
  define cmp where "cmp = memcmp target (hash (data ! nat mid)) SHA1_BINARY_BYTES"
  have unfold: "find_hash_loop_bin data target lo hi mid =
          (if 0 = cmp then Some (Returned 1 (ucast (count (data ! nat mid))))
           else if lo = mid then Some (Returned 0 0)
           else if cmp < 0 then find_hash_loop_bin data target lo mid ((lo + mid) sdiv 2)
           else find_hash_loop_bin data target mid hi ((mid + hi) sdiv 2))"
    using bounds by (subst find_hash_loop_bin.simps) (simp add: Let_def cmp_def)
  show ?case
  proof (cases "0 = cmp")
    case True
    have "nat mid < length data" using bounds by simp
    then show ?thesis
      using True unfold by (auto simp: cmp_def)
  next
    case ne: False
    show ?thesis
    proof (cases "lo = mid")
      case True
      then show ?thesis using ne unfold by simp
    next
      case False
      then have lt: "lo < mid" using bounds by simp
      then have lt2: "mid < hi" using mid by linarith
      show ?thesis
      proof (cases "cmp < 0")
        case True
        have "\<exists>r. find_hash_loop_bin data target lo mid ((lo + mid) sdiv 2) = Some r \<and>
             (r = Returned 0 0 \<or>
              (\<exists>i < length data. memcmp target (hash (data ! i)) SHA1_BINARY_BYTES = 0 \<and>
                   r = Returned 1 (ucast (count (data ! i)))))"
          using less.prems(1-3) bounds lt lt2 by (intro less.hyps) simp_all
        then show ?thesis
          using ne False True unfold by simp
      next
        case ge: False
        have "\<exists>r. find_hash_loop_bin data target mid hi ((mid + hi) sdiv 2) = Some r \<and>
             (r = Returned 0 0 \<or>
              (\<exists>i < length data. memcmp target (hash (data ! i)) SHA1_BINARY_BYTES = 0 \<and>
                   r = Returned 1 (ucast (count (data ! i)))))"
          using less.prems(1-3) bounds lt lt2 by (intro less.hyps) simp_all
        then show ?thesis
          using ne False ge unfold by simp
      qed
    qed
  qed
qed

lemma find_hash_loop_text_returns:
  assumes "0 \<le> lo" "lo \<le> hi" "(hi + 1) * 63 \<le> int (length data)" "mid = (lo + hi) sdiv 2"
  shows "\<exists>r. find_hash_loop_text data target lo hi mid = Some r \<and>
             (r = Returned 0 0 \<or>
              (\<exists>i. (i + 1) * 63 \<le> length data \<and>
                   strncasecmp target (drop (i * 63) data) kTextHashChars = 0 \<and>
                   r = Returned 1 (of_int (atoi (drop (kTextHashChars + 1) (drop (i * 63) data))))))"
  using assms
proof (induction "nat (hi - lo)" arbitrary: lo hi mid rule: less_induct)
  case less
  have mid: "mid = (lo + hi) div 2"
    using less.prems by (simp add: sdiv2_nonneg)
  have bounds: "lo \<le> mid" "mid \<le> hi" "0 \<le> mid"
    using less.prems(1-3) by (simp_all add: mid)
  have inb: "(mid + 1) * 63 \<le> int (length data)"
  proof -
    have "(mid + 1) * 63 \<le> (hi + 1) * 63" using bounds by simp
    then show ?thesis using less.prems(3) by linarith
  qed
  define file_hash where "file_hash = drop (nat (mid * 63)) data"
  define cmp where "cmp = strncasecmp target file_hash kTextHashChars"
  have unfold: "find_hash_loop_text data target lo hi mid =
          (if 0 = cmp then Some (Returned 1 (of_int (atoi (drop (kTextHashChars + 1) file_hash))))
           else if lo = mid then Some (Returned 0 0)
           else if cmp < 0 then find_hash_loop_text data target lo mid ((lo + mid) sdiv 2)
           else find_hash_loop_text data target mid hi ((mid + hi) sdiv 2))"
    using bounds inb
    by (subst find_hash_loop_text.simps)
       (simp add: Let_def cmp_def file_hash_def kTextHashLineBytes_def)
  show ?case
  proof (cases "0 = cmp")
    case True
    have "(nat mid + 1) * 63 \<le> length data" using bounds inb by (simp add: nat_le_iff algebra_simps) 
    moreover have "nat (mid * 63) = nat mid * 63" using bounds by (simp add: nat_mult_distrib)
    ultimately show ?thesis
      using True unfold unfolding cmp_def file_hash_def by auto
  next
    case ne: False
    show ?thesis
    proof (cases "lo = mid")
      case True
      then show ?thesis using ne unfold by simp
    next
      case False
      then have lt: "lo < mid" using bounds by simp
      then have lt2: "mid < hi" using mid by linarith
      show ?thesis
      proof (cases "cmp < 0")
        case True
        have "\<exists>r. find_hash_loop_text data target lo mid ((lo + mid) sdiv 2) = Some r \<and>
             (r = Returned 0 0 \<or>
              (\<exists>i. (i + 1) * 63 \<le> length data \<and>
                   strncasecmp target (drop (i * 63) data) kTextHashChars = 0 \<and>
                   r = Returned 1 (of_int (atoi (drop (kTextHashChars + 1) (drop (i * 63) data))))))"
          using less.prems(1-3) bounds lt lt2 inb by (intro less.hyps) simp_all
        then show ?thesis
          using ne False True unfold by simp
      next
        case ge: False
        have "\<exists>r. find_hash_loop_text data target mid hi ((mid + hi) sdiv 2) = Some r \<and>
             (r = Returned 0 0 \<or>
              (\<exists>i. (i + 1) * 63 \<le> length data \<and>
                   strncasecmp target (drop (i * 63) data) kTextHashChars = 0 \<and>
                   r = Returned 1 (of_int (atoi (drop (kTextHashChars + 1) (drop (i * 63) data))))))"
          using less.prems(1-3) bounds lt lt2 by (intro less.hyps) simp_all
        then show ?thesis
          using ne False ge unfold by simp
      qed
    qed
  qed
qed

text \<open>
  C5. For every corpus of \<open>n \<ge> 1\<close> records (binary: \<open>n\<close> records and a file size of
  \<open>24 * n\<close>; text: a file of \<open>63 * n\<close> bytes) and every target, \<^verbatim>\<open>find_hash\<close> returns:
  the loop ends after finitely many rounds and reads inside the file only. It ends either
  on an exact match, with found = 1 and the count of a record whose hash compares equal to
  the target, or on \<^verbatim>\<open>lo == mid\<close>, with found = 0 and count 0. The case \<open>n = 1\<close>, where
  \<^verbatim>\<open>lo == hi == mid\<close> from the start, is included. (In the text program a target whose
  length is not 40 returns found = 0 before the loop and leaves the count at the 0 that
  \<^verbatim>\<open>handle_input\<close> put there.)
\<close>

theorem find_hash_terminates:
  "(1 \<le> length recs \<and> file_size = 24 * length recs \<longrightarrow>
      (\<exists>r. find_hash_bin recs file_size target = Some r \<and>
           (r = Returned 0 0 \<or>
            (\<exists>i < length recs. memcmp target (hash (recs ! i)) SHA1_BINARY_BYTES = 0 \<and>
                 r = Returned 1 (ucast (count (recs ! i))))))) \<and>
   (1 \<le> n \<and> length data = 63 * n \<longrightarrow>
      (\<exists>msgs r. find_hash_text data (length data) target 0 = Some (msgs, r) \<and>
           (r = Returned 0 0 \<or>
            (\<exists>i < n. strncasecmp target (drop (i * 63) data) kTextHashChars = 0 \<and>
                 r = Returned 1 (of_int (atoi (drop (kTextHashChars + 1) (drop (i * 63) data))))))))"
proof (intro conjI impI)
  assume a: "1 \<le> length recs \<and> file_size = 24 * length recs"
  then have ne: "recs \<noteq> []" by auto
  show "\<exists>r. find_hash_bin recs file_size target = Some r \<and>
           (r = Returned 0 0 \<or>
            (\<exists>i < length recs. memcmp target (hash (recs ! i)) SHA1_BINARY_BYTES = 0 \<and>
                 r = Returned 1 (ucast (count (recs ! i)))))"
    using a ne unfolding find_hash_bin_def Let_def kPwnedInfoSize_def
    by (intro find_hash_loop_bin_returns) simp_all
next
  assume a: "1 \<le> n \<and> length data = 63 * n"
  show "\<exists>msgs r. find_hash_text data (length data) target 0 = Some (msgs, r) \<and>
           (r = Returned 0 0 \<or>
            (\<exists>i < n. strncasecmp target (drop (i * 63) data) kTextHashChars = 0 \<and>
                 r = Returned 1 (of_int (atoi (drop (kTextHashChars + 1) (drop (i * 63) data))))))"
  proof (cases "length target = kTextHashChars")
    case False
    then show ?thesis by (simp add: find_hash_text_def Let_def)
  next
    case True
    have "\<exists>r. find_hash_loop_text data target 0 (int n - 1) ((0 + (int n - 1)) sdiv 2) = Some r \<and>
             (r = Returned 0 0 \<or>
              (\<exists>i. (i + 1) * 63 \<le> length data \<and>
                   strncasecmp target (drop (i * 63) data) kTextHashChars = 0 \<and>
                   r = Returned 1 (of_int (atoi (drop (kTextHashChars + 1) (drop (i * 63) data))))))"
      using a by (intro find_hash_loop_text_returns) simp_all
    then obtain r where r: "find_hash_loop_text data target 0 (int n - 1) ((0 + (int n - 1)) sdiv 2) = Some r"
      and d: "r = Returned 0 0 \<or>
              (\<exists>i. (i + 1) * 63 \<le> length data \<and>
                   strncasecmp target (drop (i * 63) data) kTextHashChars = 0 \<and>
                   r = Returned 1 (of_int (atoi (drop (kTextHashChars + 1) (drop (i * 63) data)))))"
      by blast
    have lim: "\<And>i. (i + 1) * 63 \<le> length data \<Longrightarrow> i < n"
      using a by simp
    have d': "r = Returned 0 0 \<or>
              (\<exists>i < n. strncasecmp target (drop (i * 63) data) kTextHashChars = 0 \<and>
                   r = Returned 1 (of_int (atoi (drop (kTextHashChars + 1) (drop (i * 63) data)))))"
      using d lim by blast
    have "find_hash_text data (length data) target 0 = Some ([], r)"
      using True a r by (simp add: find_hash_text_def Let_def kTextHashLineBytes_def)
    then show ?thesis
      using d' by blast
  qed
qed

theorem find_hash_terminates_witness:
  "(1 \<le> length [rec0] \<and> (24::nat) = 24 * length [rec0]) \<and>
   (\<exists>r. find_hash_bin [rec0] 24 (hash rec1) = Some r \<and>
        (r = Returned 0 0 \<or>
         (\<exists>i < length [rec0]. memcmp (hash rec1) (hash ([rec0] ! i)) SHA1_BINARY_BYTES = 0 \<and>
              r = Returned 1 (ucast (count ([rec0] ! i)))))) \<and>
   ((1::nat) \<le> 1 \<and> length line0 = 63 * 1) \<and>
   (\<exists>msgs r. find_hash_text line0 (length line0) (take 40 line1) 0 = Some (msgs, r) \<and>
        (r = Returned 0 0 \<or>
         (\<exists>i < 1. strncasecmp (take 40 line1) (drop (i * 63) line0) kTextHashChars = 0 \<and>
              r = Returned 1 (of_int (atoi (drop (kTextHashChars + 1) (drop (i * 63) line0)))))))"
proof -
  have b: "1 \<le> length [rec0] \<and> (24::nat) = 24 * length [rec0]"
    by simp
  have t: "(1::nat) \<le> 1 \<and> length line0 = 63 * 1"
    by (simp add: line0_def)
  show ?thesis
    using b t
      find_hash_terminates [where recs = "[rec0]" and file_size = 24 and target = "hash rec1",
        THEN conjunct1, rule_format, OF b]
      find_hash_terminates [where n = 1 and data = line0 and target = "take 40 line1",
        THEN conjunct2, rule_format, OF t]
    by blast
qed

subsection \<open>Which records the search finds\<close>

lemma replicate_numeral: "replicate (numeral k) x = x # replicate (pred_numeral k) x"
  by (simp add: numeral_eq_Suc)

lemma memcmp_numeral:
  "memcmp (x # xs) (y # ys) (numeral k) =
     (if x \<noteq> y then int (unat x) - int (unat y) else memcmp xs ys (pred_numeral k))"
  by (simp add: numeral_eq_Suc)

lemma strncasecmp_numeral:
  "strncasecmp s1 s2 (numeral k) =
     (let c1 = tolower (char_at s1); c2 = tolower (char_at s2) in
      if c1 \<noteq> c2 then int (unat c1) - int (unat c2)
      else if c1 = 0 then 0
      else strncasecmp (tl s1) (tl s2) (pred_numeral k))"
  by (simp add: numeral_eq_Suc)

lemma memcmp_eq_0_iff:
  "length a = n \<Longrightarrow> length b = n \<Longrightarrow> memcmp a b n = 0 \<longleftrightarrow> a = b"
proof (induction a b n rule: memcmp.induct)
  case (1 x xs y ys n)
  have "x \<noteq> y \<Longrightarrow> int (unat x) - int (unat y) \<noteq> 0"
    using word_uint_eq_iff [of x y] by simp
  then show ?case using 1 by auto
qed simp_all

text \<open>
  With two or more records, \<^verbatim>\<open>mid\<close> stays below \<^verbatim>\<open>hi\<close>, and \<^verbatim>\<open>hi\<close> starts at
  the last index and only ever moves to a \<^verbatim>\<open>mid\<close>: the last record is never compared.
  So a target that matches no earlier record is reported as not found.
\<close>

lemma find_hash_loop_bin_skips_hi:
  assumes "0 \<le> lo" "lo < hi" "hi < int (length data)" "mid = (lo + hi) sdiv 2"
    and "\<And>i. lo \<le> i \<Longrightarrow> i < hi \<Longrightarrow>
           memcmp target (hash (data ! nat i)) SHA1_BINARY_BYTES \<noteq> 0"
  shows "find_hash_loop_bin data target lo hi mid = Some (Returned 0 0)"
  using assms
proof (induction "nat (hi - lo)" arbitrary: lo hi mid rule: less_induct)
  case less
  have mid: "mid = (lo + hi) div 2"
    using less.prems by (simp add: sdiv2_nonneg)
  have bounds: "lo \<le> mid" "mid < hi" "0 \<le> mid" "mid < int (length data)"
    using less.prems(1-3) by (simp_all add: mid)
  define cmp where "cmp = memcmp target (hash (data ! nat mid)) SHA1_BINARY_BYTES"
  have ne: "cmp \<noteq> 0"
    unfolding cmp_def using bounds by (intro less.prems(5)) simp_all
  have unfold: "find_hash_loop_bin data target lo hi mid =
          (if lo = mid then Some (Returned 0 0)
           else if cmp < 0 then find_hash_loop_bin data target lo mid ((lo + mid) sdiv 2)
           else find_hash_loop_bin data target mid hi ((mid + hi) sdiv 2))"
    using bounds ne by (subst find_hash_loop_bin.simps) (simp add: Let_def cmp_def)
  show ?case
  proof (cases "lo = mid")
    case True
    then show ?thesis using unfold by simp
  next
    case False
    then have lt: "lo < mid" using bounds by simp
    show ?thesis
    proof (cases "cmp < 0")
      case True
      have "find_hash_loop_bin data target lo mid ((lo + mid) sdiv 2) = Some (Returned 0 0)"
        using less.prems(1-3,5) bounds lt by (intro less.hyps) simp_all
      then show ?thesis using False True unfold by simp
    next
      case ge: False
      have "find_hash_loop_bin data target mid hi ((mid + hi) sdiv 2) = Some (Returned 0 0)"
        using less.prems(1-3,5) bounds lt by (intro less.hyps) simp_all
      then show ?thesis using False ge unfold by simp
    qed
  qed
qed

lemma find_hash_bin_never_finds_last:
  assumes n: "2 \<le> length data"
    and len: "\<And>i. i < length data \<Longrightarrow> length (hash (data ! i)) = 20"
    and distinct: "\<And>i. i < length data - 1 \<Longrightarrow> hash (data ! i) \<noteq> hash (last data)"
  shows "find_hash_bin data (24 * length data) (hash (last data)) = Some (Returned 0 0)"
proof -
  have ne: "data \<noteq> []" using n by auto
  have ll: "length (hash (last data)) = 20"
    using len [of "length data - 1"] ne by (simp add: last_conv_nth)
  have "find_hash_loop_bin data (hash (last data)) 0 (int (length data) - 1)
          ((0 + (int (length data) - 1)) sdiv 2) = Some (Returned 0 0)"
  proof (rule find_hash_loop_bin_skips_hi)
    fix i :: int
    assume i: "0 \<le> i" "i < int (length data) - 1"
    then have "nat i < length data - 1" by linarith
    then have "hash (data ! nat i) \<noteq> hash (last data)"
      and "length (hash (data ! nat i)) = 20"
      using distinct len by simp_all
    then show "memcmp (hash (last data)) (hash (data ! nat i)) SHA1_BINARY_BYTES \<noteq> 0"
      using ll by (simp add: SHA1_BINARY_BYTES_def memcmp_eq_0_iff)
  qed (use n in simp_all)
  then show ?thesis
    by (simp add: find_hash_bin_def kPwnedInfoSize_def)
qed

text \<open>
  Every other record of a strictly sorted corpus is found, with its count; so is the only
  record of a corpus of one.
\<close>

lemma memcmp_swap: "memcmp b a n = - memcmp a b n"
  by (induction a b n rule: memcmp.induct) auto

lemma memcmp_refl [simp]: "memcmp a a n = 0"
  using memcmp_swap [of a a n] by simp

lemma find_hash_loop_bin_finds:
  assumes sorted: "\<And>j k. j < k \<Longrightarrow> k < length data \<Longrightarrow>
             memcmp (hash (data ! j)) (hash (data ! k)) SHA1_BINARY_BYTES < 0"
    and "0 \<le> lo" "lo \<le> int i" "int i < hi \<or> (int i = hi \<and> lo = hi)"
    and "hi < int (length data)" "mid = (lo + hi) sdiv 2"
  shows "find_hash_loop_bin data (hash (data ! i)) lo hi mid =
           Some (Returned 1 (ucast (count (data ! i))))"
  using assms(2-)
proof (induction "nat (hi - lo)" arbitrary: lo hi mid rule: less_induct)
  case less
  have lohi: "lo \<le> hi" using less.prems by linarith
  then have "0 \<le> lo + hi" using less.prems by linarith
  then have mid: "mid = (lo + hi) div 2"
    using less.prems by (simp add: sdiv2_nonneg)
  have bounds: "lo \<le> mid" "mid \<le> hi" "0 \<le> mid" "mid < int (length data)"
    using less.prems lohi by (simp_all add: mid)
  have i: "i < length data" using less.prems by linarith
  define cmp where "cmp = memcmp (hash (data ! i)) (hash (data ! nat mid)) SHA1_BINARY_BYTES"
  have unfold: "find_hash_loop_bin data (hash (data ! i)) lo hi mid =
          (if 0 = cmp then Some (Returned 1 (ucast (count (data ! nat mid))))
           else if lo = mid then Some (Returned 0 0)
           else if cmp < 0 then find_hash_loop_bin data (hash (data ! i)) lo mid ((lo + mid) sdiv 2)
           else find_hash_loop_bin data (hash (data ! i)) mid hi ((mid + hi) sdiv 2))"
    using bounds by (subst find_hash_loop_bin.simps) (simp add: Let_def cmp_def)
  have below: "cmp < 0" if "int i < mid"
  proof -
    have "i < nat mid" "nat mid < length data" using that bounds by linarith+
    then show ?thesis unfolding cmp_def by (rule sorted)
  qed
  have above: "0 < cmp" if "mid < int i"
  proof -
    have "nat mid < i" using that bounds by linarith
    then have "memcmp (hash (data ! nat mid)) (hash (data ! i)) SHA1_BINARY_BYTES < 0"
      using i by (rule sorted)
    then show ?thesis
      unfolding cmp_def using memcmp_swap [of "hash (data ! i)" "hash (data ! nat mid)"] by simp
  qed
  consider "int i = mid" | "int i < mid" | "mid < int i" by linarith
  then show ?case
  proof cases
    case 1
    then have "nat mid = i" by simp
    then show ?thesis using unfold by (simp add: cmp_def)
  next
    case 2
    then have c: "cmp < 0" by (rule below)
    have ne: "lo \<noteq> mid" using 2 less.prems by linarith
    have lt: "mid < hi" using mid 2 less.prems(2) by linarith
    have "find_hash_loop_bin data (hash (data ! i)) lo mid ((lo + mid) sdiv 2) =
            Some (Returned 1 (ucast (count (data ! i))))"
    proof (rule less.hyps)
      show "nat (mid - lo) < nat (hi - lo)" using lt bounds by linarith
      show "int i < mid \<or> (int i = mid \<and> lo = mid)" using 2 by simp
    qed (use less.prems(1,2) bounds in simp_all)
    then show ?thesis using unfold c ne by simp
  next
    case 3
    then have c: "0 < cmp" by (rule above)
    have lt: "int i < hi" using 3 less.prems bounds by linarith
    have ne: "lo \<noteq> mid"
    proof
      assume "lo = mid"
      then have "hi \<le> lo + 1" using mid by linarith
      then show False using 3 lt \<open>lo = mid\<close> by linarith
    qed
    have "find_hash_loop_bin data (hash (data ! i)) mid hi ((mid + hi) sdiv 2) =
            Some (Returned 1 (ucast (count (data ! i))))"
    proof (rule less.hyps)
      show "nat (hi - mid) < nat (hi - lo)" using ne bounds lt 3 by linarith
      show "int i < hi \<or> (int i = hi \<and> mid = hi)" using lt by simp
      show "mid \<le> int i" using 3 by simp
    qed (use less.prems(4) bounds in simp_all)
    then show ?thesis using unfold c ne by simp
  qed
qed

lemma find_hash_bin_finds_all_but_last:
  assumes sorted: "\<And>j k. j < k \<Longrightarrow> k < length data \<Longrightarrow>
             memcmp (hash (data ! j)) (hash (data ! k)) SHA1_BINARY_BYTES < 0"
    and i: "i < length data - 1 \<or> (i = 0 \<and> length data = 1)"
  shows "find_hash_bin data (24 * length data) (hash (data ! i)) =
           Some (Returned 1 (ucast (count (data ! i))))"
proof -
  have ne: "data \<noteq> []" using i by auto
  have "find_hash_loop_bin data (hash (data ! i)) 0 (int (length data) - 1)
          ((0 + (int (length data) - 1)) sdiv 2) = Some (Returned 1 (ucast (count (data ! i))))"
    using sorted
  proof (rule find_hash_loop_bin_finds)
    show "int i < int (length data) - 1 \<or> (int i = int (length data) - 1 \<and> 0 = int (length data) - 1)"
      using i by auto
  qed (use ne in simp_all)
  then show ?thesis
    by (simp add: find_hash_bin_def kPwnedInfoSize_def)
qed

text \<open>
  C1. The claim fails on the code. In the sorted corpus of two records below, the target
  is the hash of record 1, which is present with count 7; \<^verbatim>\<open>find_hash\<close> answers found = 0
  and count 0, in the binary program and in the text program alike. (Record 0 of the same
  corpora is found, with its count 5.)
\<close>

theorem find_hash_misses_last_record:
  "memcmp (hash rec0) (hash rec1) SHA1_BINARY_BYTES < 0 \<and>
   hash ([rec0, rec1] ! 1) = hash rec1 \<and> count ([rec0, rec1] ! 1) = 7 \<and>
   find_hash_bin [rec0, rec1] 48 (hash rec1) = Some (Returned 0 0) \<and>
   find_hash_bin [rec0, rec1] 48 (hash rec0) = Some (Returned 1 5) \<and>
   length (line0 @ line1) = 126 \<and>
   strncasecmp (take 40 line0) line1 kTextHashChars < 0 \<and>
   find_hash_text (line0 @ line1) 126 (take 40 line1) 0 = Some ([], Returned 0 0) \<and>
   find_hash_text (line0 @ line1) 126 (take 40 line0) 0 = Some ([], Returned 1 5)"
proof (intro conjI)
  show "memcmp (hash rec0) (hash rec1) SHA1_BINARY_BYTES < 0"
    by (simp add: rec0_def rec1_def SHA1_BINARY_BYTES_def replicate_numeral memcmp_numeral)
  show "hash ([rec0, rec1] ! 1) = hash rec1" "count ([rec0, rec1] ! 1) = 7"
    by (simp_all add: rec1_def)
  show "find_hash_bin [rec0, rec1] 48 (hash rec1) = Some (Returned 0 0)"
    by (simp add: find_hash_bin_def kPwnedInfoSize_def find_hash_loop_bin.simps rec0_def rec1_def
        SHA1_BINARY_BYTES_def replicate_numeral memcmp_numeral signed_divide_int_def)
  show "find_hash_bin [rec0, rec1] 48 (hash rec0) = Some (Returned 1 5)"
    by (simp add: find_hash_bin_def kPwnedInfoSize_def find_hash_loop_bin.simps rec0_def rec1_def
        SHA1_BINARY_BYTES_def replicate_numeral memcmp_numeral signed_divide_int_def)
  show "length (line0 @ line1) = 126"
    by (simp add: line0_def line1_def)
  show "strncasecmp (take 40 line0) line1 kTextHashChars < 0"
    by (simp add: line0_def line1_def kTextHashChars_def SHA1_BINARY_BYTES_def tolower_def
        replicate_numeral strncasecmp_numeral)
  show "find_hash_text (line0 @ line1) 126 (take 40 line1) 0 = Some ([], Returned 0 0)"
    by (simp add: find_hash_text_def kTextHashLineBytes_def kTextHashChars_def
        find_hash_loop_text.simps line0_def line1_def tolower_def
        SHA1_BINARY_BYTES_def replicate_numeral strncasecmp_numeral signed_divide_int_def)
  show "find_hash_text (line0 @ line1) 126 (take 40 line0) 0 = Some ([], Returned 1 5)"
    by (simp add: find_hash_text_def kTextHashLineBytes_def kTextHashChars_def
        find_hash_loop_text.simps line0_def line1_def tolower_def atoi_def isspace_def isdigit_def
        SHA1_BINARY_BYTES_def replicate_numeral strncasecmp_numeral signed_divide_int_def)
qed

subsection \<open>Malformed queries\<close>

lemma all_bytes:
  assumes "list_all (\<lambda>n. P (of_nat n :: u8)) [0..<256]"
  shows "P c"
proof -
  have lt: "unat c < (256::nat)" using unsigned_less [of c, where 'a = nat] by simp
  have "\<And>n. n < (256::nat) \<Longrightarrow> P (of_nat n :: u8)"
    using assms by (simp add: list_all_iff)
  from this [OF lt] show ?thesis by simp
qed

lemma hexval_neg: "hexval c < 0 \<longleftrightarrow> \<not> ishex c"
  by (rule all_bytes [where c = c]) code_simp

lemma hexval_case: "hexval (toupper c) = hexval (tolower c)"
  by (rule all_bytes [where c = c]) code_simp

lemma tolower_case: "tolower (toupper c) = tolower (tolower c)"
  by (rule all_bytes [where c = c]) code_simp

lemma char_at_drop: "i < length xs \<Longrightarrow> char_at (drop i xs) = xs ! i"
  by (cases "drop i xs") (auto dest: nth_via_drop)

lemma tl_drop_Suc: "tl (drop i xs) = drop (Suc i) xs"
  by (simp add: drop_Suc drop_tl)

lemma hex2byte_bad:
  assumes "Suc (2 * i) < length input" "\<not> ishex (input ! (2 * i)) \<or> \<not> ishex (input ! Suc (2 * i))"
  shows "hex2byte (drop (2 * i) input) = None"
  using assms by (auto simp: hex2byte_def Let_def char_at_drop tl_drop_Suc hexval_neg)

lemma decode_hash_bad:
  assumes "length input = 40" "2 * i \<le> j" "j < 40" "\<not> ishex (input ! j)"
  shows "\<exists>k < 20. decode_hash input i hs = Inl k"
  using assms
proof (induction input i hs rule: decode_hash.induct)
  case (1 input i hs)
  have i: "i < 20" using "1.prems" by simp
  show ?case
  proof (cases "hex2byte (drop (2 * i) input)")
    case None
    then show ?thesis
      using i by (subst decode_hash.simps) (simp add: SHA1_BINARY_BYTES_def)
  next
    case (Some b)
    have "j \<noteq> 2 * i \<and> j \<noteq> Suc (2 * i)"
      using hex2byte_bad [of i input] Some "1.prems" i by auto
    then have "2 * (i + 1) \<le> j" using "1.prems"(2) by simp
    then have "\<exists>k < 20. decode_hash input (i + 1) (hs[i := b]) = Inl k"
      using "1.prems" i Some by (intro "1.IH") (simp_all add: SHA1_BINARY_BYTES_def)
    then show ?thesis
      using i Some by (subst decode_hash.simps) (simp add: SHA1_BINARY_BYTES_def)
  qed
qed

text \<open>
  C7. In hash mode, a query whose length is not 40 (both programs) or, in the binary
  program, a query of 40 characters of which one is not a hexadecimal digit, makes
  \<^verbatim>\<open>handle_input\<close> write its diagnostic and return 0 (not found): it calls neither
  \<^verbatim>\<open>find_hash\<close> nor \<^verbatim>\<open>exit\<close>, and the loop of \<^verbatim>\<open>main\<close> goes on with the queries
  that follow.
\<close>

theorem malformed_query_is_reported_and_skipped:
  "(length input \<noteq> 40 \<longrightarrow>
      handle_input_text False input tdata tsize =
        Some (query_error [InvalidHashLength input 40 (length input)]) \<and>
      queries_text False tdata tsize (input # qs) =
        map_option ((#) (query_error [InvalidHashLength input 40 (length input)]))
          (queries_text False tdata tsize qs) \<and>
      handle_input_bin False input bdata bsize =
        Some (query_error [InvalidHashLength input 40 (length input), UseHelp]) \<and>
      queries_bin False bdata bsize (input # qs) =
        map_option ((#) (query_error [InvalidHashLength input 40 (length input), UseHelp]))
          (queries_bin False bdata bsize qs)) \<and>
   (length input = 40 \<and> list_ex (\<lambda>c. \<not> ishex c) input \<longrightarrow>
      (\<exists>k < 20.
         handle_input_bin False input bdata bsize =
           Some (query_error [InvalidHexByte (2 * k) input, UseHelp]) \<and>
         queries_bin False bdata bsize (input # qs) =
           map_option ((#) (query_error [InvalidHexByte (2 * k) input, UseHelp]))
             (queries_bin False bdata bsize qs)))"
proof (intro conjI impI)
  assume len: "length input \<noteq> 40"
  show t: "handle_input_text False input tdata tsize =
        Some (query_error [InvalidHashLength input 40 (length input)])"
    using len
    by (simp add: handle_input_text_def query_error_def kTextHashChars_def SHA1_BINARY_BYTES_def)
  show "queries_text False tdata tsize (input # qs) =
        map_option ((#) (query_error [InvalidHashLength input 40 (length input)]))
          (queries_text False tdata tsize qs)"
    by (simp add: t) (simp add: query_error_def)
  show b: "handle_input_bin False input bdata bsize =
        Some (query_error [InvalidHashLength input 40 (length input), UseHelp])"
    using len
    by (simp add: handle_input_bin_def query_error_def kTextHashChars_def SHA1_BINARY_BYTES_def
          PrintUsageError_bin_def)
  show "queries_bin False bdata bsize (input # qs) =
        map_option ((#) (query_error [InvalidHashLength input 40 (length input), UseHelp]))
          (queries_bin False bdata bsize qs)"
    by (simp add: b) (simp add: query_error_def)
next
  assume a: "length input = 40 \<and> list_ex (\<lambda>c. \<not> ishex c) input"
  then obtain j where j: "j < 40" "\<not> ishex (input ! j)"
    by (auto simp: list_ex_iff in_set_conv_nth)
  then obtain k where k: "k < 20"
    and d: "decode_hash input 0 (replicate SHA1_BINARY_BYTES 0) = Inl k"
    using decode_hash_bad [of input 0 j] a by auto
  have b: "handle_input_bin False input bdata bsize =
           Some (query_error [InvalidHexByte (2 * k) input, UseHelp])"
    using a d
    by (simp add: handle_input_bin_def query_error_def kTextHashChars_def SHA1_BINARY_BYTES_def
          PrintUsageError_bin_def)
  have "queries_bin False bdata bsize (input # qs) =
           map_option ((#) (query_error [InvalidHexByte (2 * k) input, UseHelp]))
             (queries_bin False bdata bsize qs)"
    by (simp add: b) (simp add: query_error_def)
  then show "\<exists>k < 20.
         handle_input_bin False input bdata bsize =
           Some (query_error [InvalidHexByte (2 * k) input, UseHelp]) \<and>
         queries_bin False bdata bsize (input # qs) =
           map_option ((#) (query_error [InvalidHexByte (2 * k) input, UseHelp]))
             (queries_bin False bdata bsize qs)"
    using k b by blast
qed

theorem malformed_query_is_reported_and_skipped_witness:
  "length ([] :: u8 list) \<noteq> 40 \<and>
   handle_input_text False [] line0 63 = Some (query_error [InvalidHashLength [] 40 0]) \<and>
   handle_input_bin False [] [rec0] 24 = Some (query_error [InvalidHashLength [] 40 0, UseHelp]) \<and>
   queries_bin False [rec0] 24 [[], hash rec0] =
     map_option ((#) (query_error [InvalidHashLength [] 40 0, UseHelp]))
       (queries_bin False [rec0] 24 [hash rec0]) \<and>
   (length (replicate 40 (0x47 :: u8)) = 40 \<and> list_ex (\<lambda>c. \<not> ishex c) (replicate 40 (0x47 :: u8))) \<and>
   (\<exists>k < 20. handle_input_bin False (replicate 40 0x47) [rec0] 24 =
       Some (query_error [InvalidHexByte (2 * k) (replicate 40 0x47), UseHelp]))"
proof -
  have a: "length ([] :: u8 list) \<noteq> 40" by simp
  have b: "length (replicate 40 (0x47 :: u8)) = 40 \<and>
           list_ex (\<lambda>c. \<not> ishex c) (replicate 40 (0x47 :: u8))"
    by (simp add: ishex_def list_ex_iff)
  note t = malformed_query_is_reported_and_skipped
  show ?thesis
    using a b
      t [where input = "[]" and tdata = line0 and tsize = 63 and qs = "[hash rec0]"
           and bdata = "[rec0]" and bsize = 24, THEN conjunct1, rule_format, OF a]
      t [where input = "replicate 40 0x47" and qs = "[]" and bdata = "[rec0]" and bsize = 24,
         THEN conjunct2, rule_format, OF b]
    by auto
qed

subsection \<open>Upper and lower case\<close>

lemma char_at_map: "f 0 = 0 \<Longrightarrow> char_at (map f xs) = f (char_at xs)"
  by (cases xs) simp_all

lemma toupper_0 [simp]: "toupper 0 = 0" and tolower_0 [simp]: "tolower 0 = 0"
  by (simp_all add: toupper_def tolower_def)

lemma strncasecmp_case:
  "strncasecmp (map toupper t) f n = strncasecmp (map tolower t) f n"
proof (induction n arbitrary: t f)
  case 0
  show ?case by simp
next
  case (Suc n)
  have "strncasecmp (map toupper (tl t)) (tl f) n = strncasecmp (map tolower (tl t)) (tl f) n"
    by (rule Suc.IH)
  then show ?case
    by (simp add: Let_def char_at_map tolower_case map_tl)
qed

lemma find_hash_loop_text_mono:
  assumes eq: "\<And>f. strncasecmp t1 f kTextHashChars = strncasecmp t2 f kTextHashChars"
    and run: "find_hash_loop_text data t1 lo hi mid = Some r"
  shows "find_hash_loop_text data t2 lo hi mid = Some r"
proof -
  have "t = t1 \<longrightarrow> find_hash_loop_text data t2 lo hi mid = Some r"
    if "find_hash_loop_text data t lo hi mid = Some r" for t
    using that
  proof (rule find_hash_loop_text.raw_induct
      [rotated, where P = "\<lambda>data t lo hi mid r. t = t1 \<longrightarrow> find_hash_loop_text data t2 lo hi mid = Some r"])
    fix loop :: "u8 list \<Rightarrow> u8 list \<Rightarrow> int \<Rightarrow> int \<Rightarrow> int \<Rightarrow> lookup option"
    fix data t lo hi mid r
    assume IH: "\<And>data t lo hi mid r. loop data t lo hi mid = Some r \<Longrightarrow>
                  t = t1 \<longrightarrow> find_hash_loop_text data t2 lo hi mid = Some r"
    assume body: "(if mid < 0 \<or> int (length data) < (mid + 1) * int kTextHashLineBytes then Some OutOfBounds
      else
        let file_hash = drop (nat (mid * int kTextHashLineBytes)) data;
            cmp = strncasecmp t file_hash kTextHashChars
        in
          if 0 = cmp then Some (Returned 1 (of_int (atoi (drop (kTextHashChars + 1) file_hash))))
          else if lo = mid then Some (Returned 0 0)
          else if cmp < 0 then loop data t lo mid ((lo + mid) sdiv 2)
          else loop data t mid hi ((mid + hi) sdiv 2)) = Some r"
    show "t = t1 \<longrightarrow> find_hash_loop_text data t2 lo hi mid = Some r"
    proof
      assume t: "t = t1"
      show "find_hash_loop_text data t2 lo hi mid = Some r"
        using body IH unfolding t
        by (subst find_hash_loop_text.simps) (auto simp: Let_def eq split: if_splits)
    qed
  qed
  then show ?thesis using run by blast
qed

lemma find_hash_loop_text_cong:
  assumes eq: "\<And>f. strncasecmp t1 f kTextHashChars = strncasecmp t2 f kTextHashChars"
  shows "find_hash_loop_text data t1 lo hi mid = find_hash_loop_text data t2 lo hi mid"
proof (cases "find_hash_loop_text data t1 lo hi mid")
  case (Some r)
  then show ?thesis using find_hash_loop_text_mono [OF eq] by simp
next
  case None
  show ?thesis
  proof (cases "find_hash_loop_text data t2 lo hi mid")
    case (Some r)
    then have "find_hash_loop_text data t1 lo hi mid = Some r"
      using find_hash_loop_text_mono [of t2 t1] eq by simp
    then show ?thesis using None by simp
  next
    case n2: None
    then show ?thesis using None by simp
  qed
qed

lemma hex2byte_case: "hex2byte (map toupper xs) = hex2byte (map tolower xs)"
  by (simp add: hex2byte_def char_at_map map_tl [symmetric] hexval_case)

lemma decode_hash_case:
  "decode_hash (map toupper t) i hs = decode_hash (map tolower t) i hs"
proof (induction "SHA1_BINARY_BYTES - i" arbitrary: i hs)
  case 0
  then show ?case
    by (subst decode_hash.simps, subst (2) decode_hash.simps) simp
next
  case (Suc n)
  have h: "hex2byte (drop (2 * i) (map toupper t)) = hex2byte (drop (2 * i) (map tolower t))"
    by (simp only: drop_map hex2byte_case)
  have "\<And>b. decode_hash (map toupper t) (i + 1) (hs[i := b]) =
            decode_hash (map tolower t) (i + 1) (hs[i := b])"
    using Suc.hyps(2) by (intro Suc.hyps(1)) simp
  then show ?case
    by (subst decode_hash.simps, subst (2) decode_hash.simps) (simp add: h split: option.split)
qed

text \<open>
  C8. For every corpus and every target, looking the target up written in upper case and
  written in lower case gives the same found and count: in the text program
  \<^verbatim>\<open>find_hash\<close> compares with \<^verbatim>\<open>strncasecmp\<close>, so its result is the same (also seen
  through \<^verbatim>\<open>handle_input\<close>); in the binary program \<^verbatim>\<open>hexval\<close> gives a digit the same
  value in either case, so \<^verbatim>\<open>handle_input\<close> searches for the same bytes. This holds for
  all strings, the 40-character hexadecimal ones among them.
\<close>

theorem lookup_ignores_hex_case:
  "map_option snd (find_hash_text data tsize (map toupper t) c0) =
     map_option snd (find_hash_text data tsize (map tolower t) c0) \<and>
   map_option h_lookup (handle_input_text False (map toupper t) data tsize) =
     map_option h_lookup (handle_input_text False (map tolower t) data tsize) \<and>
   map_option (\<lambda>r. (h_lookup r, h_return r)) (handle_input_bin False (map toupper t) recs bsize) =
     map_option (\<lambda>r. (h_lookup r, h_return r)) (handle_input_bin False (map tolower t) recs bsize)"
proof (intro conjI)
  have loop: "\<And>t lo hi mid. find_hash_loop_text data (map toupper t) lo hi mid =
                   find_hash_loop_text data (map tolower t) lo hi mid"
    by (rule find_hash_loop_text_cong) (rule strncasecmp_case)
  show f: "\<And>t. map_option snd (find_hash_text data tsize (map toupper t) c0) =
     map_option snd (find_hash_text data tsize (map tolower t) c0)"
    by (simp add: find_hash_text_def Let_def loop option.map_comp comp_def)
  have f0: "\<And>t. map_option snd (find_hash_text data tsize (map toupper t) 0) =
     map_option snd (find_hash_text data tsize (map tolower t) 0)"
    by (simp add: find_hash_text_def Let_def loop option.map_comp comp_def)
  show "map_option h_lookup (handle_input_text False (map toupper t) data tsize) =
     map_option h_lookup (handle_input_text False (map tolower t) data tsize)"
  proof -
    have "map_option Some (map_option snd
            (find_hash_text data tsize (map toupper (take (SHA1_BINARY_BYTES * 2) t)) 0)) =
          map_option Some (map_option snd
            (find_hash_text data tsize (map tolower (take (SHA1_BINARY_BYTES * 2) t)) 0))"
      by (simp only: f0)
    then show ?thesis
      by (simp add: handle_input_text_def Let_def option.map_comp comp_def case_prod_unfold
            take_map)
  qed
  show "map_option (\<lambda>r. (h_lookup r, h_return r)) (handle_input_bin False (map toupper t) recs bsize) =
     map_option (\<lambda>r. (h_lookup r, h_return r)) (handle_input_bin False (map tolower t) recs bsize)"
    by (simp add: handle_input_bin_def Let_def decode_hash_case PrintUsageError_bin_def
          split: sum.split)
qed

subsection \<open>The size of the corpus file\<close>

text \<open>
  C6. With the file opened, a corpus of \<open>n\<close> bytes where \<open>n\<close> is zero or not a multiple of
  the record width (63 for the text program, 24 for the binary one) ends \<^verbatim>\<open>main\<close> with
  a diagnostic and a nonzero exit status (4 and 3) before any call of \<^verbatim>\<open>handle_input\<close>,
  so no lookup is attempted. A corpus whose length is a positive multiple of the record
  width passes the check: with the file mapped, the run is the loop over the queries.
\<close>

theorem corpus_size_is_checked_first:
  "(n = 0 \<or> n mod 63 \<noteq> 0 \<longrightarrow>
      main_text pw True (int n) mm tdata qs =
        Some \<lparr>exit_status = 4, main_stderr = [InvalidFileSize (int n) 63], queries = []\<rparr>) \<and>
   (n = 0 \<or> n mod 24 \<noteq> 0 \<longrightarrow>
      main_bin pw True (int n) mm bdata qs =
        Some \<lparr>exit_status = 3, main_stderr = [InvalidFileSize (int n) 24, UseHelp],
              queries = []\<rparr>) \<and>
   (0 < n \<and> n mod 63 = 0 \<longrightarrow>
      main_text pw True (int n) False tdata qs =
        map_option finish_text (queries_text pw tdata n qs)) \<and>
   (0 < n \<and> n mod 24 = 0 \<longrightarrow>
      main_bin pw True (int n) False bdata qs =
        map_option finish_bin (queries_bin pw bdata n qs))"
proof -
  have m63: "int n mod 63 = int (n mod 63)" and m24: "int n mod 24 = int (n mod 24)"
    by (simp_all add: zmod_int)
  show ?thesis
    unfolding main_text_def main_bin_def kTextHashLineBytes_def kPwnedInfoSize_def
      PrintUsageError_bin_def
    by (auto simp: m63 m24)
qed

theorem corpus_size_is_checked_first_witness:
  "((0::nat) = 0 \<or> (0::nat) mod 63 \<noteq> 0) \<and>
   main_text False True 0 False [] [take 40 line0] =
     Some \<lparr>exit_status = 4, main_stderr = [InvalidFileSize 0 63], queries = []\<rparr> \<and>
   ((25::nat) = 0 \<or> (25::nat) mod 24 \<noteq> 0) \<and>
   main_bin False True 25 False [rec0] [hash rec0] =
     Some \<lparr>exit_status = 3, main_stderr = [InvalidFileSize 25 24, UseHelp], queries = []\<rparr> \<and>
   ((0::nat) < 63 \<and> (63::nat) mod 63 = 0) \<and>
   main_text False True 63 False line0 [] = Some \<lparr>exit_status = 0, main_stderr = [], queries = []\<rparr> \<and>
   ((0::nat) < 24 \<and> (24::nat) mod 24 = 0) \<and>
   main_bin False True 24 False [rec0] [] = Some \<lparr>exit_status = 0, main_stderr = [], queries = []\<rparr>"
proof -
  note t = corpus_size_is_checked_first
  have a: "(0::nat) = 0 \<or> (0::nat) mod 63 \<noteq> 0"
    and b: "(25::nat) = 0 \<or> (25::nat) mod 24 \<noteq> 0"
    and c: "(0::nat) < 63 \<and> (63::nat) mod 63 = 0"
    and d: "(0::nat) < 24 \<and> (24::nat) mod 24 = 0"
    by simp_all
  show ?thesis
    using
      t [where n = 0 and pw = False and mm = False and tdata = "[]" and qs = "[take 40 line0]",
         THEN conjunct1, rule_format, OF a]
      t [where n = 25 and pw = False and mm = False and bdata = "[rec0]" and qs = "[hash rec0]",
         THEN conjunct2, THEN conjunct1, rule_format, OF b]
      t [where n = 63 and pw = False and tdata = line0 and qs = "[]",
         THEN conjunct2, THEN conjunct2, THEN conjunct1, rule_format, OF c]
      t [where n = 24 and pw = False and bdata = "[rec0]" and qs = "[]",
         THEN conjunct2, THEN conjunct2, THEN conjunct2, rule_format, OF d]
    by (simp add: finish_text_def finish_bin_def)
qed
section \<open>Known digests\<close>

text \<open>
  The two short published vectors, evaluated in the logic: the schedule and the eighty
  rounds of the one padded block are unfolded step by step, twenty rounds at a time.
\<close>

lemma upt_0_20: "[0..<20] = [0, 1, 2, 3, 4, 5, 6, 7, 8, 9, 10, 11, 12, 13, 14, 15, 16, 17, 18, 19]"
  by code_simp

lemma upt_0_16: "[0..<16] = [0, 1, 2, 3, 4, 5, 6, 7, 8, 9, 10, 11, 12, 13, 14, 15]"
  by code_simp

lemma w_expand_step:
  "i < 80 \<Longrightarrow>
   w_expand i w =
     w_expand (i + 1)
       (w @ [ROTATE_LEFT (w ! (i - 3) XOR w ! (i - 8) XOR w ! (i - 14) XOR w ! (i - 16)) 1])"
  by (subst w_expand.simps) simp

lemma w_expand_stop: "\<not> i < 80 \<Longrightarrow> w_expand i w = w"
  by (subst w_expand.simps) simp

lemma sha1_rounds_step:
  "i < 80 \<Longrightarrow> sha1_rounds w i v = sha1_rounds w (i + 1) (sha1_round w i v)"
  by (subst sha1_rounds.simps) simp

lemma sha1_rounds_stop: "\<not> i < 80 \<Longrightarrow> sha1_rounds w i v = v"
  by (subst sha1_rounds.simps) simp

text \<open>
  The same round with its two new words written as \<open>word_of_int (uint _)\<close>, which is the
  identity on words: evaluating it reduces the numerals modulo \<open>2 ^ 32\<close> at every round.
\<close>

lemma sha1_round_reduced:
  "sha1_round w i (a, b, c, d, e) =
     (let fk = (if i < 20 then ((b AND c) OR ((NOT b) AND d), 0x5A827999)
                else if i < 40 then (b XOR c XOR d, 0x6ED9EBA1)
                else if i < 60 then ((b AND c) OR (b AND d) OR (c AND d), 0x8F1BBCDC)
                else (b XOR c XOR d, 0xCA62C1D6))
      in (word_of_int (uint (ROTATE_LEFT a 5 + (fst fk + e + snd fk + w ! i))), a,
          word_of_int (uint (ROTATE_LEFT b 30)), c, d))"
  by (simp add: sha1_round_def Let_def)

lemma w_init_empty:
  "w_init
     [128, 0, 0, 0, 0, 0, 0, 0, 0, 0, 0, 0, 0, 0, 0, 0, 0, 0, 0, 0, 0, 0, 0, 0, 0, 0, 0,
     0, 0, 0, 0, 0, 0, 0, 0, 0, 0, 0, 0, 0, 0, 0, 0, 0, 0, 0, 0, 0, 0, 0, 0, 0, 0, 0,
     0, 0, 0, 0, 0, 0, 0, 0, 0, 0] =
     [2147483648, 0, 0, 0, 0, 0, 0, 0, 0, 0, 0, 0, 0, 0, 0, 0]"
  by (simp add: w_init_def load_be32_def upt_0_16)

lemma w_expand_empty:
  "w_expand 16
     [2147483648, 0, 0, 0, 0, 0, 0, 0, 0, 0, 0, 0, 0, 0, 0, 0] =
     [2147483648, 0, 0, 0, 0, 0, 0, 0, 0, 0, 0, 0, 0, 0, 0, 0, 1, 0, 0, 2, 0, 0, 4, 0,
     2, 8, 0, 0, 16, 0, 10, 32, 6, 0, 64, 8, 40, 128, 8, 0, 264, 0, 160, 512, 100, 0,
     1032, 136, 668, 2048, 128, 40, 4232, 0, 2624, 8192, 1640, 128, 16520, 2176, 10440,
     32768, 2216, 128, 67816, 0, 40960, 131200, 25600, 0, 264192, 34816, 171024,
     524288, 32896, 10272, 1083584, 0, 671936, 2097280]"
  by (simp add: w_expand_step w_expand_stop ROTATE_LEFT_def)

lemma sha1_rounds_empty:
  "sha1_rounds
     [2147483648, 0, 0, 0, 0, 0, 0, 0, 0, 0, 0, 0, 0, 0, 0, 0, 1, 0, 0, 2, 0, 0, 4, 0,
     2, 8, 0, 0, 16, 0, 10, 32, 6, 0, 64, 8, 40, 128, 8, 0, 264, 0, 160, 512, 100, 0,
     1032, 136, 668, 2048, 128, 40, 4232, 0, 2624, 8192, 1640, 128, 16520, 2176, 10440,
     32768, 2216, 128, 67816, 0, 40960, 131200, 25600, 0, 264192, 34816, 171024,
     524288, 32896, 10272, 1083584, 0, 671936, 2097280]
     0 (1732584193, 4023233417, 2562383102, 271733878, 3285377520) =
     (1928626413, 1855823748, 2577064689, 2234369050, 3959760153)"
  by (simp add: sha1_rounds_step sha1_rounds_stop sha1_round_reduced ROTATE_LEFT_def)

lemma sha1_hash_block_empty:
  "sha1_hash_block [1732584193, 4023233417, 2562383102, 271733878, 3285377520]
     [128, 0, 0, 0, 0, 0, 0, 0, 0, 0, 0, 0, 0, 0, 0, 0, 0, 0, 0, 0, 0, 0, 0, 0, 0, 0, 0,
     0, 0, 0, 0, 0, 0, 0, 0, 0, 0, 0, 0, 0, 0, 0, 0, 0, 0, 0, 0, 0, 0, 0, 0, 0, 0, 0,
     0, 0, 0, 0, 0, 0, 0, 0, 0, 0] =
     [3661210606, 1584089869, 844480495, 2506102928, 2950170377]"
  by (simp add: sha1_hash_block_def w_init_empty w_expand_empty sha1_rounds_empty)

lemma w_init_abc:
  "w_init
     [97, 98, 99, 128, 0, 0, 0, 0, 0, 0, 0, 0, 0, 0, 0, 0, 0, 0, 0, 0, 0, 0, 0, 0, 0, 0,
     0, 0, 0, 0, 0, 0, 0, 0, 0, 0, 0, 0, 0, 0, 0, 0, 0, 0, 0, 0, 0, 0, 0, 0, 0, 0, 0,
     0, 0, 0, 0, 0, 0, 0, 0, 0, 0, 24] =
     [1633837952, 0, 0, 0, 0, 0, 0, 0, 0, 0, 0, 0, 0, 0, 0, 24]"
  by (simp add: w_init_def load_be32_def upt_0_16)

lemma w_expand_abc:
  "w_expand 16
     [1633837952, 0, 0, 0, 0, 0, 0, 0, 0, 0, 0, 0, 0, 0, 0, 24] =
     [1633837952, 0, 0, 0, 0, 0, 0, 0, 0, 0, 0, 0, 0, 0, 0, 24, 3267675904, 0, 48,
     2240384513, 0, 96, 185801731, 48, 2240384705, 371603462, 0, 384, 743206924, 240,
     2477765895, 1486413896, 2392494594, 1536, 2972827888, 371604422, 1321128990,
     1650688161, 371603462, 6336, 3537975492, 3840, 989548665, 2307785957, 3803855915,
     24768, 87701453, 1950713159, 3667138029, 641206806, 1650688929, 1321161950,
     943043659, 62976, 512018339, 2564836760, 1696405152, 1650822305, 1166361814,
     1146637495, 2074109465, 1669377698, 182801001, 1652246945, 2094292125, 983040,
     4216354106, 3966199272, 3124505570, 6340608, 976735493, 1166362356, 3092880854,
     940186150, 31465987, 3888919638, 3873835881, 16124416, 1469443919, 2184054905]"
  by (simp add: w_expand_step w_expand_stop ROTATE_LEFT_def)

lemma sha1_rounds_abc:
  "sha1_rounds
     [1633837952, 0, 0, 0, 0, 0, 0, 0, 0, 0, 0, 0, 0, 0, 0, 24, 3267675904, 0, 48,
     2240384513, 0, 96, 185801731, 48, 2240384705, 371603462, 0, 384, 743206924, 240,
     2477765895, 1486413896, 2392494594, 1536, 2972827888, 371604422, 1321128990,
     1650688161, 371603462, 6336, 3537975492, 3840, 989548665, 2307785957, 3803855915,
     24768, 87701453, 1950713159, 3667138029, 641206806, 1650688929, 1321161950,
     943043659, 62976, 512018339, 2564836760, 1696405152, 1650822305, 1166361814,
     1146637495, 2074109465, 1669377698, 182801001, 1652246945, 2094292125, 983040,
     4216354106, 3966199272, 3124505570, 6340608, 976735493, 1166362356, 3092880854,
     940186150, 31465987, 3888919638, 3873835881, 16124416, 1469443919, 2184054905]
     0 (1732584193, 4023233417, 2562383102, 271733878, 3285377520) =
     (1112808245, 1463342561, 562251891, 1746824694, 3640522413)"
  by (simp add: sha1_rounds_step sha1_rounds_stop sha1_round_reduced ROTATE_LEFT_def)

lemma sha1_hash_block_abc:
  "sha1_hash_block [1732584193, 4023233417, 2562383102, 271733878, 3285377520]
     [97, 98, 99, 128, 0, 0, 0, 0, 0, 0, 0, 0, 0, 0, 0, 0, 0, 0, 0, 0, 0, 0, 0, 0, 0, 0,
     0, 0, 0, 0, 0, 0, 0, 0, 0, 0, 0, 0, 0, 0, 0, 0, 0, 0, 0, 0, 0, 0, 0, 0, 0, 0, 0,
     0, 0, 0, 0, 0, 0, 0, 0, 0, 0, 24] =
     [2845392438, 1191608682, 3124634993, 2018558572, 2630932637]"
  by (simp add: sha1_hash_block_def w_init_abc w_expand_abc sha1_rounds_abc)

lemma sha1_short_known_vectors:
  "sha1_buffer (Some []) 0 = Some ''da39a3ee5e6b4b0d3255bfef95601890afd80709'' \<and>
   sha1_buffer (Some [0x61, 0x62, 0x63]) 3 = Some ''a9993e364706816aba3e25717850c26c9cd0d89d''"
  by (simp add: sha1_buffer_def sha1_buffer_flags_def sha1_initialized_def SHA1_INIT_FLAGS_def
        SHA1_FLAGS_DEFAULT_def SHA1_FLAG_UPPER_CASE_def sha1_update_def sha1_end.simps(2)
        memcpy_def memset_def store_be64_def replicate_numeral list_update_numeral
        sha1_hash_block_empty sha1_hash_block_abc
        upt_0_20 sha1_text_chars_def hash_byte_def tohex_def)
end
